theory Spec2Isabelle
  imports Main
begin

section \<open>Data model of huha.js\<close>

text \<open>
  The three status constants of the module (\<^verbatim>\<open>IN_PROGRESS\<close>, \<^verbatim>\<open>COMPLETED\<close>,
  \<^verbatim>\<open>ABANDONED\<close>) and the strings they stand for. The strings are what the sinks
  receive.
\<close>

datatype status = IN_PROGRESS | COMPLETED | ABANDONED

fun status_str :: "status \<Rightarrow> string" where
  "status_str IN_PROGRESS = ''In progress''"
| "status_str COMPLETED = ''Completed''"
| "status_str ABANDONED = ''Abandoned''"

text \<open>
  The module-level object \<^verbatim>\<open>DEFAULTS\<close> always carries the three flags. An options
  object handed to a constructor may leave any of them out (\<open>None\<close>: the key is absent).
\<close>

record defaults =
  d_trackOnGoogleAnalytics :: bool
  d_trackOnIntercom :: bool
  d_trackOnSegment :: bool

record options =
  o_trackOnGoogleAnalytics :: "bool option"
  o_trackOnIntercom :: "bool option"
  o_trackOnSegment :: "bool option"

definition DEFAULTS_initial :: defaults where
  "DEFAULTS_initial =
     \<lparr>d_trackOnGoogleAnalytics = False, d_trackOnIntercom = False, d_trackOnSegment = True\<rparr>"

text \<open>
  \<^verbatim>\<open>Object.assign(target, source)\<close> on these objects: every key present in the source
  overwrites the target's, the others are kept. A missing source (\<^verbatim>\<open>undefined\<close>)
  copies nothing.
\<close>

definition pick :: "bool \<Rightarrow> bool option \<Rightarrow> bool" where
  "pick d v = (case v of None \<Rightarrow> d | Some b \<Rightarrow> b)"

definition Object_assign :: "defaults \<Rightarrow> options option \<Rightarrow> defaults" where
  "Object_assign d src =
     (case src of
        None \<Rightarrow> d
      | Some opts \<Rightarrow>
          \<lparr>d_trackOnGoogleAnalytics = pick (d_trackOnGoogleAnalytics d) (o_trackOnGoogleAnalytics opts),
           d_trackOnIntercom = pick (d_trackOnIntercom d) (o_trackOnIntercom opts),
           d_trackOnSegment = pick (d_trackOnSegment d) (o_trackOnSegment opts)\<rparr>)"

text \<open>
  A \<^verbatim>\<open>HuhaTask\<close> object. Tasks are shared by reference (the registry's list, the
  \<^verbatim>\<open>parentTask\<close> of a child, the caller's handle), so they live in a heap and are
  named by their address. \<open>end_ts\<close> is the field \<^verbatim>\<open>end\<close>, \<open>None\<close> while it
  is \<^verbatim>\<open>null\<close>. The counters are JavaScript numbers that start at 0 and only ever
  grow by one; they are natural numbers here (a JavaScript number counts exactly up to
  \<open>2 ^ 53\<close>).
\<close>

record task =
  name :: string
  status :: status
  effort :: nat
  errors :: nat
  start :: int
  end_ts :: "int option"
  trackOnGoogleAnalytics :: bool
  trackOnIntercom :: bool
  trackOnSegment :: bool
  parentTask :: "nat option"

text \<open>The calls the module makes on the analytics globals, with their arguments.\<close>

datatype jsval = JStr string | JNum int

datatype sink_call =
    Gtag string string "(string \<times> jsval) list"
  | Ga "jsval list"
  | Intercom string string "(string \<times> jsval) list"
  | Analytics_track string "(string \<times> jsval) list"

text \<open>
  Everything outside one registry that the code reads or writes: the module-level
  \<^verbatim>\<open>DEFAULTS\<close>, the heap of task objects, the clock (the \<open>n\<close>-th call of
  \<^verbatim>\<open>new Date().getTime()\<close> returns \<open>clock n\<close>), the \<^verbatim>\<open>uuidv1\<close> generator of the
  \<^verbatim>\<open>uuid\<close> package (its \<open>n\<close>-th call returns \<open>uuid_source n\<close>), which analytics
  globals are defined, and the calls made on them so far.
\<close>

record world =
  DEFAULTS :: defaults
  heap :: "task list"
  clock :: "nat \<Rightarrow> int"
  ticks :: nat
  uuid_source :: "nat \<Rightarrow> string"
  uuids :: nat
  has_gtag :: bool
  has_ga :: bool
  has_Intercom :: bool
  has_analytics :: bool
  calls :: "sink_call list"

definition getTime :: "world \<Rightarrow> int \<times> world" where
  "getTime w = (clock w (ticks w), w\<lparr>ticks := Suc (ticks w)\<rparr>)"

text \<open>
  Modelled from the spec: \<^verbatim>\<open>uuidv1\<close> is imported from the package \<^verbatim>\<open>uuid\<close>, whose
  code is not part of the sources. The spec says of it that it generates a fresh token on
  each call; here the \<open>n\<close>-th call returns \<open>uuid_source w n\<close>, whatever that is.
\<close>

definition uuidv1 :: "world \<Rightarrow> string \<times> world" where
  "uuidv1 w = (uuid_source w (uuids w), w\<lparr>uuids := Suc (uuids w)\<rparr>)"

definition emit :: "sink_call list \<Rightarrow> world \<Rightarrow> world" where
  "emit cs w = w\<lparr>calls := calls w @ cs\<rparr>"

section \<open>HuhaTask\<close>

text \<open>The constructor: merges the options into \<^verbatim>\<open>DEFAULTS\<close> and allocates the object.\<close>

definition HuhaTask_new :: "string \<Rightarrow> nat option \<Rightarrow> options option \<Rightarrow> world \<Rightarrow> nat \<times> world" where
  "HuhaTask_new nm parent opts w =
     (let mergedOptions = Object_assign (DEFAULTS w) opts;
          w1 = w\<lparr>DEFAULTS := mergedOptions\<rparr>;
          (now, w2) = getTime w1;
          this = \<lparr>name = nm, status = IN_PROGRESS, effort = 0, errors = 0, start = now,
                  end_ts = None,
                  trackOnGoogleAnalytics = d_trackOnGoogleAnalytics mergedOptions,
                  trackOnIntercom = d_trackOnIntercom mergedOptions,
                  trackOnSegment = d_trackOnSegment mergedOptions,
                  parentTask = parent\<rparr>
      in (length (heap w2), w2\<lparr>heap := heap w2 @ [this]\<rparr>))"

text \<open>
  \<^verbatim>\<open>addInteraction\<close> and \<^verbatim>\<open>addError\<close> call themselves on the parent. Nothing in the
  code bounds the chain of parents, so the functions are partial: \<open>None\<close> is a call that
  does not return.
\<close>

partial_function (option) addInteraction :: "nat \<Rightarrow> world \<Rightarrow> world option" where
  "addInteraction a w =
     (let this = heap w ! a;
          w1 = w\<lparr>heap := (heap w)[a := this\<lparr>effort := effort this + 1\<rparr>]\<rparr>
      in case parentTask this of
           None \<Rightarrow> Some w1
         | Some p \<Rightarrow> addInteraction p w1)"

partial_function (option) addError :: "nat \<Rightarrow> world \<Rightarrow> world option" where
  "addError a w =
     (let this = heap w ! a;
          w1 = w\<lparr>heap := (heap w)[a := this\<lparr>errors := errors this + 1\<rparr>]\<rparr>
      in case parentTask this of
           None \<Rightarrow> Some w1
         | Some p \<Rightarrow> addError p w1)"

declare addInteraction.simps [code]
declare addError.simps [code]

text \<open>
  The getter \<^verbatim>\<open>time\<close>. The test \<^verbatim>\<open>if (this.end)\<close> is a truthiness test: it fails
  for \<^verbatim>\<open>null\<close> and for the number 0.
\<close>

definition time :: "task \<Rightarrow> int" where
  "time this =
     (case end_ts this of
        None \<Rightarrow> 0
      | Some e \<Rightarrow> if e \<noteq> 0 then e - start this else 0)"

definition sendToGoogleAnalytics :: "nat \<Rightarrow> world \<Rightarrow> world" where
  "sendToGoogleAnalytics a w =
     (let this = heap w ! a in
      if has_gtag w then
        emit [Gtag ''event'' ''timing_complete''
                [(''event_category'', JStr (name this)),
                 (''event_label'', JStr ''Time on task''),
                 (''value'', JNum (time this)),
                 (''name'', JStr (status_str (status this)))],
              Gtag ''event'' (status_str (status this))
                [(''event_category'', JStr (name this)),
                 (''event_label'', JStr ''Error''),
                 (''value'', JNum (int (errors this)))],
              Gtag ''event'' (status_str (status this))
                [(''event_category'', JStr (name this)),
                 (''event_label'', JStr ''Effort''),
                 (''value'', JNum (int (effort this)))]] w
      else if has_ga w then
        emit [Ga [JStr ''send'', JStr ''timing'', JStr (name this),
                  JStr (status_str (status this)), JNum (time this), JStr ''Time on task''],
              Ga [JStr ''send'', JStr ''event'', JStr (name this),
                  JStr (status_str (status this)), JStr ''Error'', JNum (int (errors this))],
              Ga [JStr ''send'', JStr ''event'', JStr (name this),
                  JStr (status_str (status this)), JStr ''Effort'', JNum (int (effort this))]] w
      else w)"

definition sendToIntercom :: "nat \<Rightarrow> world \<Rightarrow> world" where
  "sendToIntercom a w =
     (let this = heap w ! a in
      if has_Intercom w then
        emit [Intercom ''trackEvent'' (name this)
                [(''errors'', JNum (int (errors this))),
                 (''effort'', JNum (int (effort this))),
                 (''time'', JNum (time this)),
                 (''status'', JStr (status_str (status this)))]] w
      else w)"

definition sendToSegment :: "nat \<Rightarrow> world \<Rightarrow> world" where
  "sendToSegment a w =
     (let this = heap w ! a in
      if has_analytics w then
        emit [Analytics_track (name this)
                [(''category'', JStr (name this)),
                 (''action'', JStr (status_str (status this))),
                 (''label'', JStr ''Task''),
                 (''value'', JNum 1),
                 (''errors'', JNum (int (errors this))),
                 (''effort'', JNum (int (effort this))),
                 (''time'', JNum (time this)),
                 (''result'', JStr (status_str (status this))),
                 (''started'', JNum (start this))]] w
      else w)"

definition track :: "nat \<Rightarrow> world \<Rightarrow> world" where
  "track a w =
     (let w1 = (if trackOnGoogleAnalytics (heap w ! a) then sendToGoogleAnalytics a w else w);
          w2 = (if trackOnIntercom (heap w1 ! a) then sendToIntercom a w1 else w1)
      in if trackOnSegment (heap w2 ! a) then sendToSegment a w2 else w2)"

definition finish :: "status \<Rightarrow> nat \<Rightarrow> world \<Rightarrow> world" where
  "finish st a w =
     (if status (heap w ! a) = IN_PROGRESS then
        (let (now, w1) = getTime w;
             this = heap w1 ! a;
             w2 = w1\<lparr>heap := (heap w1)[a := this\<lparr>end_ts := Some now\<rparr>]\<rparr>;
             this2 = heap w2 ! a;
             w3 = w2\<lparr>heap := (heap w2)[a := this2\<lparr>status := st\<rparr>]\<rparr>
         in track a w3)
      else w)"

definition complete :: "nat \<Rightarrow> world \<Rightarrow> world" where
  "complete a w = finish COMPLETED a w"

definition abandon :: "nat \<Rightarrow> world \<Rightarrow> world" where
  "abandon a w = finish ABANDONED a w"

section \<open>HuhaEvent\<close>

text \<open>
  The task of an event is a name or a task object. Events are never shared after their
  construction, so they are kept as values.
\<close>

datatype task_ref = Task_name string | Task_object nat

record event =
  e_name :: string
  e_object :: string
  e_action :: string
  e_section :: string
  e_value :: string
  e_task :: "task_ref option"
  eventGroup :: string
  e_trackOnGoogleAnalytics :: bool
  e_trackOnSegment :: bool

definition no_options :: options where
  "no_options =
     \<lparr>o_trackOnGoogleAnalytics = None, o_trackOnIntercom = None, o_trackOnSegment = None\<rparr>"

text \<open>
  The constructor. \<^verbatim>\<open>eventGroup || uuidv1()\<close> takes the generated token when the
  argument is falsy: \<^verbatim>\<open>undefined\<close> or the empty string.
\<close>

definition HuhaEvent_new ::
  "string \<Rightarrow> string \<Rightarrow> string \<Rightarrow> string \<Rightarrow> string \<Rightarrow> task_ref option \<Rightarrow> string option \<Rightarrow>
   options option \<Rightarrow> world \<Rightarrow> event \<times> world" where
  "HuhaEvent_new nm obj act sec val tsk evGroup opts w =
     (let mergedOptions =
            Object_assign (DEFAULTS w) (Some (case opts of None \<Rightarrow> no_options | Some x \<Rightarrow> x));
          w1 = w\<lparr>DEFAULTS := mergedOptions\<rparr>;
          (grp, w2) = (case evGroup of
                         None \<Rightarrow> uuidv1 w1
                       | Some g \<Rightarrow> if g \<noteq> [] then (g, w1) else uuidv1 w1)
      in (\<lparr>e_name = nm, e_object = obj, e_action = act, e_section = sec, e_value = val,
            e_task = tsk, eventGroup = grp,
            e_trackOnGoogleAnalytics = d_trackOnGoogleAnalytics mergedOptions,
            e_trackOnSegment = d_trackOnSegment mergedOptions\<rparr>, w2))"

definition HuhaEvent_sendToGoogleAnalytics :: "event \<Rightarrow> world \<Rightarrow> world" where
  "HuhaEvent_sendToGoogleAnalytics this w =
     (if has_gtag w then
        emit [Gtag ''event'' (e_action this)
                [(''event_category'', JStr (e_section this)),
                 (''event_label'', JStr (e_object this)),
                 (''value'', JStr (e_value this))]] w
      else if has_ga w then
        emit [Ga [JStr ''send'', JStr ''event'', JStr (e_section this), JStr (e_action this),
                  JStr (e_object this), JStr (e_value this)]] w
      else w)"

definition HuhaEvent_sendToSegment :: "event \<Rightarrow> world \<Rightarrow> world" where
  "HuhaEvent_sendToSegment this w =
     (if has_analytics w then
        emit [Analytics_track (e_name this)
                [(''category'', JStr (e_section this)),
                 (''label'', JStr (e_object this)),
                 (''action'', JStr (e_action this)),
                 (''value'', JStr (e_value this)),
                 (''eventGroup'', JStr (eventGroup this))]] w
      else w)"

definition HuhaEvent_track :: "event \<Rightarrow> world \<Rightarrow> world" where
  "HuhaEvent_track this w =
     (let w1 = (if e_trackOnGoogleAnalytics this then HuhaEvent_sendToGoogleAnalytics this w
                else w)
      in if e_trackOnSegment this then HuhaEvent_sendToSegment this w1 else w1)"

section \<open>Huha\<close>

text \<open>
  The registry: its tasks (references into the heap), its events and its three flags.
  The constructor also installs the listeners of the page (\<^verbatim>\<open>setUpEvents\<close>); they are
  the callers of \<open>registerEvent\<close> and \<open>abandonInProgressTasks\<close> and change nothing by
  themselves.
\<close>

record huha =
  tasks :: "nat list"
  events :: "event list"
  h_trackOnGoogleAnalytics :: bool
  h_trackOnIntercom :: bool
  h_trackOnSegment :: bool

definition Huha_new :: "options option \<Rightarrow> world \<Rightarrow> huha \<times> world" where
  "Huha_new opts w =
     (let mergedOptions =
            Object_assign (DEFAULTS w) (Some (case opts of None \<Rightarrow> no_options | Some x \<Rightarrow> x))
      in (\<lparr>tasks = [], events = [],
            h_trackOnGoogleAnalytics = d_trackOnGoogleAnalytics mergedOptions,
            h_trackOnIntercom = d_trackOnIntercom mergedOptions,
            h_trackOnSegment = d_trackOnSegment mergedOptions\<rparr>,
          w\<lparr>DEFAULTS := mergedOptions\<rparr>))"

definition getTask :: "string \<Rightarrow> huha \<Rightarrow> world \<Rightarrow> nat option" where
  "getTask nm h w =
     find (\<lambda>a. name (heap w ! a) = nm \<and> status (heap w ! a) = IN_PROGRESS) (tasks h)"

definition createTask :: "string \<Rightarrow> nat option \<Rightarrow> huha \<Rightarrow> world \<Rightarrow> nat \<times> huha \<times> world" where
  "createTask nm parent h w =
     (let w1 = (case getTask nm h w of
                  None \<Rightarrow> w
                | Some existingTask \<Rightarrow> abandon existingTask w);
          (huhaTask, w2) =
             HuhaTask_new nm parent
               (Some \<lparr>o_trackOnGoogleAnalytics = Some (h_trackOnGoogleAnalytics h),
                      o_trackOnIntercom = Some (h_trackOnIntercom h),
                      o_trackOnSegment = Some (h_trackOnSegment h)\<rparr>) w1
      in (huhaTask, h\<lparr>tasks := tasks h @ [huhaTask]\<rparr>, w2))"

definition createEvent ::
  "string \<Rightarrow> string \<Rightarrow> string \<Rightarrow> string \<Rightarrow> string \<Rightarrow> task_ref option \<Rightarrow> string option \<Rightarrow>
   huha \<Rightarrow> world \<Rightarrow> event \<times> huha \<times> world" where
  "createEvent nm obj act sec val tsk evGroup h w =
     (let (huhaEvent, w1) =
             HuhaEvent_new nm obj act sec val tsk evGroup
               (Some \<lparr>o_trackOnGoogleAnalytics = Some (h_trackOnGoogleAnalytics h),
                      o_trackOnIntercom = None,
                      o_trackOnSegment = Some (h_trackOnSegment h)\<rparr>) w;
          w2 = HuhaEvent_track huhaEvent w1
      in (huhaEvent, h\<lparr>events := events h @ [huhaEvent]\<rparr>, w2))"

text \<open>
  The \<^verbatim>\<open>dataset\<close> of the element an interaction happened on. The listeners call
  \<open>registerEvent\<close> only for elements that carry \<^verbatim>\<open>data-huha-task\<close>; the trigger and
  the event type may be missing.
\<close>

record element =
  huhaTask :: string
  huhaTrigger :: "string option"
  huhaEvent :: "string option"

definition registerEvent :: "string \<Rightarrow> element \<Rightarrow> huha \<Rightarrow> world \<Rightarrow> (huha \<times> world) option" where
  "registerEvent capturedEvent el h w =
     (let taskName = huhaTask el; actionTrigger = huhaTrigger el; eventType = huhaEvent el in
      if Some capturedEvent = actionTrigger then
        if eventType = Some ''start'' then
          (let (t, h1, w1) = createTask taskName None h w in Some (h1, w1))
        else
          (case getTask taskName h w of
             None \<Rightarrow> Some (h, w)
           | Some t \<Rightarrow>
               if eventType = Some ''complete'' then Some (h, complete t w)
               else if eventType = Some ''abandon'' then Some (h, abandon t w)
               else if eventType = Some ''interaction'' then map_option (Pair h) (addInteraction t w)
               else if eventType = Some ''error'' then map_option (Pair h) (addError t w)
               else Some (h, w))
      else Some (h, w))"

definition abandonInProgressTasks :: "huha \<Rightarrow> world \<Rightarrow> world" where
  "abandonInProgressTasks h w =
     (let pendingTasks = filter (\<lambda>a. status (heap w ! a) = IN_PROGRESS) (tasks h)
      in fold abandon pendingTasks w)"

section \<open>Notions used to state the properties\<close>

text \<open>
  A call of \<^verbatim>\<open>complete()\<close> or \<^verbatim>\<open>abandon()\<close> on the task at an address, and the status
  it asks for.
\<close>

datatype ending = Complete | Abandon

fun end_call :: "ending \<Rightarrow> nat \<Rightarrow> world \<Rightarrow> world" where
  "end_call Complete a w = complete a w"
| "end_call Abandon a w = abandon a w"

fun ending_status :: "ending \<Rightarrow> status" where
  "ending_status Complete = COMPLETED"
| "ending_status Abandon = ABANDONED"

text \<open>
  The state a terminal transition leaves before it tracks: one reading of the clock taken,
  \<^verbatim>\<open>end\<close> and \<^verbatim>\<open>status\<close> of the task written.
\<close>

definition transition :: "status \<Rightarrow> nat \<Rightarrow> world \<Rightarrow> world" where
  "transition st a w =
     w\<lparr>ticks := Suc (ticks w),
       heap := (heap w)[a := (heap w ! a)\<lparr>end_ts := Some (clock w (ticks w)), status := st\<rparr>]\<rparr>"

text \<open>
  Concrete states: a fresh page whose clock reads 1000, 1500, 2000, ... and on which
  \<^verbatim>\<open>ga\<close>, \<^verbatim>\<open>Intercom\<close> and \<^verbatim>\<open>analytics\<close> are loaded; the same after one task
  was constructed.
\<close>

definition world0 :: world where
  "world0 =
     \<lparr>DEFAULTS = DEFAULTS_initial, heap = [], clock = (\<lambda>n. 1000 + 500 * int n), ticks = 0,
      uuid_source = (\<lambda>n. CHR ''g'' # replicate n CHR ''x''), uuids = 0,
      has_gtag = False, has_ga = True, has_Intercom = True, has_analytics = True,
      calls = []\<rparr>"

definition world1 :: world where
  "world1 = snd (HuhaTask_new ''checkout'' None None world0)"

text \<open>
  A page whose clock reads \<open>-1000\<close> and then 0 (the epoch), and the task that is
  constructed and completed there.
\<close>

definition epoch_world :: world where
  "epoch_world = world0\<lparr>clock := (\<lambda>n. if n = 0 then - 1000 else 0)\<rparr>"

definition epoch_task :: task where
  "epoch_task = heap (complete 0 (snd (HuhaTask_new ''checkout'' None None epoch_world))) ! 0"

text \<open>
  The calls a forwarder makes when it is invoked for the task at an address: what it adds
  to the calls made so far.
\<close>

definition sink_out :: "(nat \<Rightarrow> world \<Rightarrow> world) \<Rightarrow> nat \<Rightarrow> world \<Rightarrow> sink_call list" where
  "sink_out forwarder a w = drop (length (calls w)) (calls (forwarder a w))"

text \<open>A page without \<^verbatim>\<open>Intercom\<close>, after a task with all three flags was constructed.\<close>

definition world2 :: world where
  "world2 =
     snd (HuhaTask_new ''signup'' None
            (Some \<lparr>o_trackOnGoogleAnalytics = Some True, o_trackOnIntercom = Some True,
                   o_trackOnSegment = Some True\<rparr>)
            (world0\<lparr>has_Intercom := False\<rparr>))"

text \<open>A registry constructed on the fresh page, and two elements of the page.\<close>

definition registry0 :: huha where
  "registry0 = fst (Huha_new None world0)"

definition focus_on_click_element :: element where
  "focus_on_click_element =
     \<lparr>huhaTask = ''checkout'', huhaTrigger = Some ''click'', huhaEvent = Some ''start''\<rparr>"

definition complete_element :: element where
  "complete_element =
     \<lparr>huhaTask = ''checkout'', huhaTrigger = Some ''click'', huhaEvent = Some ''complete''\<rparr>"

text \<open>The options a constructor merges: the empty object stands in for a missing argument.\<close>

definition options_or_empty :: "options option \<Rightarrow> options" where
  "options_or_empty opts = (case opts of None \<Rightarrow> no_options | Some x \<Rightarrow> x)"

fun is_Intercom :: "sink_call \<Rightarrow> bool" where
  "is_Intercom (Intercom m n props) = True"
| "is_Intercom c = False"

text \<open>
  A parent is handed to the constructor of its child, so it was constructed before the
  child: in a heap built by the constructors every parent has a smaller address than its
  children. \<open>chain hp a\<close> is the task at \<open>a\<close> followed by its ancestors.
\<close>

definition heap_ok :: "task list \<Rightarrow> bool" where
  "heap_ok hp =
     list_all (\<lambda>a. case parentTask (hp ! a) of None \<Rightarrow> True | Some p \<Rightarrow> p < a) [0..<length hp]"

fun chain :: "task list \<Rightarrow> nat \<Rightarrow> nat list" where
  "chain hp a =
     a # (case parentTask (hp ! a) of
            None \<Rightarrow> []
          | Some p \<Rightarrow> if p < a then chain hp p else [])"

declare chain.simps [simp del]

text \<open>
  Sequences of calls of \<^verbatim>\<open>addInteraction()\<close> and \<^verbatim>\<open>addError()\<close> on tasks, and the
  number of calls of one kind in a sequence that are made on a task or on one of its
  descendants.
\<close>

datatype counting = Interaction | Error

fun count_call :: "counting \<Rightarrow> nat \<Rightarrow> world \<Rightarrow> world option" where
  "count_call Interaction a w = addInteraction a w"
| "count_call Error a w = addError a w"

fun count_calls :: "(counting \<times> nat) list \<Rightarrow> world \<Rightarrow> world option" where
  "count_calls [] w = Some w"
| "count_calls ((k, a) # cs) w =
     (case count_call k a w of None \<Rightarrow> None | Some w' \<Rightarrow> count_calls cs w')"

definition calls_reaching :: "task list \<Rightarrow> counting \<Rightarrow> nat \<Rightarrow> (counting \<times> nat) list \<Rightarrow> nat" where
  "calls_reaching hp k b cs = length (filter (\<lambda>(k', c). k' = k \<and> b \<in> set (chain hp c)) cs)"

text \<open>
  A task, its child and its grandchild on the fresh page, the first of them completed;
  calls on the child and the grandchild.
\<close>

definition world3 :: world where
  "world3 =
     complete 0
       (snd (HuhaTask_new ''signup.step1.field'' (Some 1) None
          (snd (HuhaTask_new ''signup.step1'' (Some 0) None
             (snd (HuhaTask_new ''signup'' None None world0))))))"

definition calls3 :: "(counting \<times> nat) list" where
  "calls3 = [(Interaction, 2), (Error, 2), (Interaction, 1)]"


text \<open>
  A registry pushes each task it constructs once, and a task it holds is an object of the
  heap. \<open>pending\<close> is the list \<^verbatim>\<open>pendingTasks\<close> that \<open>abandonInProgressTasks\<close>
  computes.
\<close>

definition registry_ok :: "huha \<Rightarrow> world \<Rightarrow> bool" where
  "registry_ok h w \<longleftrightarrow> distinct (tasks h) \<and> list_all (\<lambda>a. a < length (heap w)) (tasks h)"

definition pending :: "huha \<Rightarrow> world \<Rightarrow> nat list" where
  "pending h w = filter (\<lambda>a. status (heap w ! a) = IN_PROGRESS) (tasks h)"

text \<open>
  Two states that differ at most in the heap, the readings taken from the clock and the
  calls made on the sinks.
\<close>

definition same_env :: "world \<Rightarrow> world \<Rightarrow> bool" where
  "same_env w w' \<longleftrightarrow>
     DEFAULTS w' = DEFAULTS w \<and> clock w' = clock w \<and> uuid_source w' = uuid_source w \<and>
     uuids w' = uuids w \<and> has_gtag w' = has_gtag w \<and> has_ga w' = has_ga w \<and>
     has_Intercom w' = has_Intercom w \<and> has_analytics w' = has_analytics w"

text \<open>
  The registry of the fresh page after three tasks were created, and the state after the
  second of them was completed.
\<close>

definition registry3 :: huha where
  "registry3 =
     fst (snd (createTask ''checkout'' None
       (fst (snd (createTask ''search'' None
          (fst (snd (createTask ''login'' None registry0 world0)))
          (snd (snd (createTask ''login'' None registry0 world0))))))
       (snd (snd (createTask ''search'' None
          (fst (snd (createTask ''login'' None registry0 world0)))
          (snd (snd (createTask ''login'' None registry0 world0))))))))"

definition world4 :: world where
  "world4 =
     complete 1
       (snd (snd (createTask ''checkout'' None
          (fst (snd (createTask ''search'' None
             (fst (snd (createTask ''login'' None registry0 world0)))
             (snd (snd (createTask ''login'' None registry0 world0))))))
          (snd (snd (createTask ''search'' None
             (fst (snd (createTask ''login'' None registry0 world0)))
             (snd (snd (createTask ''login'' None registry0 world0)))))))))"


text \<open>
  What a page can do with one registry and the tasks of the heap: the methods of the
  registry, and \<^verbatim>\<open>addInteraction()\<close>, \<^verbatim>\<open>addError()\<close>, \<^verbatim>\<open>complete()\<close> and
  \<^verbatim>\<open>abandon()\<close> on any task. A reference to a task is always a reference to an object
  that exists, so an operation that names an address outside the heap is no possible
  call: \<open>step\<close> gives \<open>None\<close> for it, as it does for a call that does not return.
\<close>

datatype op =
    CreateTask string "nat option"
  | CreateEvent string string string string string "task_ref option" "string option"
  | RegisterEvent string element
  | AbandonInProgressTasks
  | Count counting nat
  | End ending nat

fun step :: "op \<Rightarrow> huha \<times> world \<Rightarrow> (huha \<times> world) option" where
  "step (CreateTask nm parent) (h, w) =
     (if (case parent of None \<Rightarrow> True | Some p \<Rightarrow> p < length (heap w))
      then Some (snd (createTask nm parent h w)) else None)"
| "step (CreateEvent nm obj act sec val tsk grp) (h, w) =
     Some (snd (createEvent nm obj act sec val tsk grp h w))"
| "step (RegisterEvent capturedEvent el) (h, w) = registerEvent capturedEvent el h w"
| "step AbandonInProgressTasks (h, w) = Some (h, abandonInProgressTasks h w)"
| "step (Count k a) (h, w) =
     (if a < length (heap w) then map_option (Pair h) (count_call k a w) else None)"
| "step (End c a) (h, w) =
     (if a < length (heap w) then Some (h, end_call c a w) else None)"

fun run :: "op list \<Rightarrow> huha \<times> world \<Rightarrow> (huha \<times> world) option" where
  "run [] s = Some s"
| "run (x # xs) s = (case step x s of None \<Rightarrow> None | Some s' \<Rightarrow> run xs s')"

text \<open>
  \<open>settles w w'\<close>: the heap of \<open>w'\<close> has the tasks of \<open>w\<close> with their names and
  parents, and those that were not in progress have kept their status and their end.
\<close>

definition settles :: "world \<Rightarrow> world \<Rightarrow> bool" where
  "settles w w' \<longleftrightarrow>
     length (heap w') = length (heap w) \<and>
     (\<forall>a < length (heap w).
        name (heap w' ! a) = name (heap w ! a) \<and>
        parentTask (heap w' ! a) = parentTask (heap w ! a) \<and>
        (status (heap w ! a) \<noteq> IN_PROGRESS \<longrightarrow>
           status (heap w' ! a) = status (heap w ! a) \<and>
           end_ts (heap w' ! a) = end_ts (heap w ! a)))"

text \<open>
  The invariant of a registry: its tasks are distinct objects of the heap, and those in
  progress have distinct names.
\<close>

definition registry_inv :: "huha \<Rightarrow> world \<Rightarrow> bool" where
  "registry_inv h w \<longleftrightarrow>
     registry_ok h w \<and> distinct (map (\<lambda>a. name (heap w ! a)) (pending h w))"

text \<open>The state in which \<open>createTask\<close> constructs the new task.\<close>

definition make_room :: "string \<Rightarrow> huha \<Rightarrow> world \<Rightarrow> world" where
  "make_room nm h w = (case getTask nm h w of None \<Rightarrow> w | Some existingTask \<Rightarrow> abandon existingTask w)"

text \<open>
  \<open>only_counters w w'\<close>: the step from \<open>w\<close> to \<open>w'\<close> wrote tasks of the heap and
  nothing else, and \<open>settles\<close>. \<open>later w w'\<close>: the generator of \<open>w'\<close> is that of
  \<open>w\<close>, after the same or more calls.
\<close>

definition only_counters :: "world \<Rightarrow> world \<Rightarrow> bool" where
  "only_counters w w' \<longleftrightarrow>
     same_env w w' \<and> ticks w' = ticks w \<and> calls w' = calls w \<and> settles w w'"


definition later :: "world \<Rightarrow> world \<Rightarrow> bool" where
  "later w w' \<longleftrightarrow> uuid_source w' = uuid_source w \<and> uuids w \<le> uuids w'"

text \<open>Operations that lead from the fresh page to \<open>registry3\<close> and \<open>world4\<close>.\<close>

definition ops_demo :: "op list" where
  "ops_demo =
     [CreateTask ''login'' None, CreateTask ''search'' None, CreateTask ''checkout'' None,
      End Complete 1]"


text \<open>
  Modelled from the spec: \<^verbatim>\<open>uuidv1\<close> belongs to the package \<^verbatim>\<open>uuid\<close>, which is not
  part of the sources. The spec describes the token it returns as generated fresh, a
  process-unique random token, and as non-empty. \<open>fresh_tokens\<close> says so of a generator:
  no two calls return the same token and no call returns the empty string.
\<close>

definition fresh_tokens :: "(nat \<Rightarrow> string) \<Rightarrow> bool" where
  "fresh_tokens gen \<longleftrightarrow> inj gen \<and> (\<forall>n. gen n \<noteq> [])"

text \<open>
  The arguments for which the constructor generates the group: a missing one and the
  empty string. Then a sequence of operations that creates one event, and the state it
  leads to on the fresh page after one token was taken.
\<close>

definition no_eventGroup :: "string option \<Rightarrow> bool" where
  "no_eventGroup evGroup = (case evGroup of None \<Rightarrow> True | Some g \<Rightarrow> g = [])"

definition one_event :: "op list" where
  "one_event = [CreateEvent ''search'' ''box'' ''type'' ''header'' ''shoes'' None None]"

definition registry5 :: huha where
  "registry5 =
     registry0\<lparr>events := [fst (createEvent ''search'' ''box'' ''type'' ''header'' ''shoes''
                                None None registry0 (world0\<lparr>uuids := 1\<rparr>))]\<rparr>"

definition world5 :: world where
  "world5 =
     world0\<lparr>uuids := 2,
            calls := [Analytics_track ''search''
                        [(''category'', JStr ''header''), (''label'', JStr ''box''),
                         (''action'', JStr ''type''), (''value'', JStr ''shoes''),
                         (''eventGroup'', JStr ''gx'')]]\<rparr>"


text \<open>
  \<open>terminal_kept w w'\<close>: every task of \<open>w\<close> that was not in progress is in \<open>w'\<close>
  with the same status and the same end.
\<close>

definition terminal_kept :: "world \<Rightarrow> world \<Rightarrow> bool" where
  "terminal_kept w w' \<longleftrightarrow>
     length (heap w) \<le> length (heap w') \<and>
     (\<forall>a < length (heap w).
        status (heap w ! a) \<noteq> IN_PROGRESS \<longrightarrow>
          status (heap w' ! a) = status (heap w ! a) \<and>
          end_ts (heap w' ! a) = end_ts (heap w ! a))"


text \<open>
  The three flags, as a key of \<^verbatim>\<open>DEFAULTS\<close> and of an options object. A construction
  is a call of one of the three constructors; \<open>given\<close> is the options object it merges,
  \<open>construct\<close> the state it leaves, \<open>constructed\<close> the flag the new object stores
  (a \<^verbatim>\<open>HuhaEvent\<close> stores no Intercom flag: \<open>stores\<close>). \<open>last_given k cs\<close> is the value
  of the flag in the last construction of the sequence \<open>cs\<close> whose options give it.
\<close>

datatype flag = TrackOnGoogleAnalytics | TrackOnIntercom | TrackOnSegment

fun default_of :: "flag \<Rightarrow> defaults \<Rightarrow> bool" where
  "default_of TrackOnGoogleAnalytics d = d_trackOnGoogleAnalytics d"
| "default_of TrackOnIntercom d = d_trackOnIntercom d"
| "default_of TrackOnSegment d = d_trackOnSegment d"

fun option_of :: "flag \<Rightarrow> options \<Rightarrow> bool option" where
  "option_of TrackOnGoogleAnalytics opts = o_trackOnGoogleAnalytics opts"
| "option_of TrackOnIntercom opts = o_trackOnIntercom opts"
| "option_of TrackOnSegment opts = o_trackOnSegment opts"

datatype construction =
    New_Huha "options option"
  | New_HuhaTask string "nat option" "options option"
  | New_HuhaEvent string string string string string "task_ref option" "string option"
      "options option"

fun given :: "construction \<Rightarrow> options" where
  "given (New_Huha opts) = options_or_empty opts"
| "given (New_HuhaTask nm parent opts) = options_or_empty opts"
| "given (New_HuhaEvent nm obj act sec val tsk grp opts) = options_or_empty opts"

fun construct :: "construction \<Rightarrow> world \<Rightarrow> world" where
  "construct (New_Huha opts) w = snd (Huha_new opts w)"
| "construct (New_HuhaTask nm parent opts) w = snd (HuhaTask_new nm parent opts w)"
| "construct (New_HuhaEvent nm obj act sec val tsk grp opts) w =
     snd (HuhaEvent_new nm obj act sec val tsk grp opts w)"

fun constructed :: "flag \<Rightarrow> construction \<Rightarrow> world \<Rightarrow> bool option" where
  "constructed TrackOnGoogleAnalytics (New_Huha opts) w =
     Some (h_trackOnGoogleAnalytics (fst (Huha_new opts w)))"
| "constructed TrackOnIntercom (New_Huha opts) w =
     Some (h_trackOnIntercom (fst (Huha_new opts w)))"
| "constructed TrackOnSegment (New_Huha opts) w =
     Some (h_trackOnSegment (fst (Huha_new opts w)))"
| "constructed TrackOnGoogleAnalytics (New_HuhaTask nm parent opts) w =
     Some (trackOnGoogleAnalytics
             (heap (snd (HuhaTask_new nm parent opts w)) ! fst (HuhaTask_new nm parent opts w)))"
| "constructed TrackOnIntercom (New_HuhaTask nm parent opts) w =
     Some (trackOnIntercom
             (heap (snd (HuhaTask_new nm parent opts w)) ! fst (HuhaTask_new nm parent opts w)))"
| "constructed TrackOnSegment (New_HuhaTask nm parent opts) w =
     Some (trackOnSegment
             (heap (snd (HuhaTask_new nm parent opts w)) ! fst (HuhaTask_new nm parent opts w)))"
| "constructed TrackOnGoogleAnalytics (New_HuhaEvent nm obj act sec val tsk grp opts) w =
     Some (e_trackOnGoogleAnalytics (fst (HuhaEvent_new nm obj act sec val tsk grp opts w)))"
| "constructed TrackOnIntercom (New_HuhaEvent nm obj act sec val tsk grp opts) w = None"
| "constructed TrackOnSegment (New_HuhaEvent nm obj act sec val tsk grp opts) w =
     Some (e_trackOnSegment (fst (HuhaEvent_new nm obj act sec val tsk grp opts w)))"

fun stores :: "flag \<Rightarrow> construction \<Rightarrow> bool" where
  "stores TrackOnIntercom (New_HuhaEvent nm obj act sec val tsk grp opts) = False"
| "stores k c = True"

fun last_given :: "flag \<Rightarrow> construction list \<Rightarrow> bool option" where
  "last_given k [] = None"
| "last_given k (c # cs) =
     (case last_given k cs of None \<Rightarrow> option_of k (given c) | Some v \<Rightarrow> Some v)"

definition constructions_demo :: "construction list" where
  "constructions_demo =
     [New_Huha (Some \<lparr>o_trackOnGoogleAnalytics = Some True, o_trackOnIntercom = None,
                      o_trackOnSegment = Some False\<rparr>),
      New_HuhaEvent ''search'' ''box'' ''type'' ''header'' ''shoes'' None None
        (Some \<lparr>o_trackOnGoogleAnalytics = None, o_trackOnIntercom = Some True,
               o_trackOnSegment = None\<rparr>),
      New_HuhaTask ''checkout'' None None]"

text \<open>
  The state after the three constructions above and the completion of the task they
  construct, and two constructions that follow.
\<close>

definition world6 :: world where
  "world6 = complete 0 (fold construct constructions_demo world0)"

definition later_task :: construction where
  "later_task = New_HuhaTask ''search'' None None"

definition later_huha :: construction where
  "later_huha =
     New_Huha (Some \<lparr>o_trackOnGoogleAnalytics = None, o_trackOnIntercom = None,
                     o_trackOnSegment = Some True\<rparr>)"


section \<open>Properties\<close>


lemmas eval_defs =
  world0_def world1_def HuhaTask_new_def Object_assign_def pick_def DEFAULTS_initial_def
  getTime_def finish_def complete_def abandon_def track_def sendToGoogleAnalytics_def
  sendToIntercom_def sendToSegment_def emit_def time_def transition_def

subsection \<open>Terminal transitions\<close>

lemma finish_terminal: "status (heap w ! a) \<noteq> IN_PROGRESS \<Longrightarrow> finish st a w = w"
  by (simp add: finish_def)

lemma finish_in_progress:
  "status (heap w ! a) = IN_PROGRESS \<Longrightarrow> a < length (heap w) \<Longrightarrow>
   finish st a w = track a (transition st a w)"
  by (simp add: finish_def getTime_def transition_def)

lemma end_call_finish: "end_call c a w = finish (ending_status c) a w"
  by (cases c) (simp_all add: complete_def abandon_def)

lemma heap_emit [simp]: "heap (emit cs w) = heap w"
  by (simp add: emit_def)

lemma heap_send [simp]:
  "heap (sendToGoogleAnalytics a w) = heap w"
  "heap (sendToIntercom a w) = heap w"
  "heap (sendToSegment a w) = heap w"
  by (simp_all add: sendToGoogleAnalytics_def sendToIntercom_def sendToSegment_def Let_def)

lemma heap_track [simp]: "heap (track a w) = heap w"
  by (simp add: track_def Let_def)

lemma fold_end_call_terminal:
  "status (heap w ! a) \<noteq> IN_PROGRESS \<Longrightarrow> fold (\<lambda>c. end_call c a) cs w = w"
  by (induction cs) (simp_all add: end_call_finish finish_terminal)

subsection \<open>Elapsed time\<close>

lemma time_unset: "end_ts this = None \<Longrightarrow> time this = 0"
  by (simp add: time_def)

lemma time_set: "end_ts this = Some e \<Longrightarrow> e \<noteq> 0 \<Longrightarrow> time this = e - start this"
  by (simp add: time_def)

text \<open>
  C4. The elapsed time of a task is 0 while \<^verbatim>\<open>end\<close> is unset and \<open>end - start\<close> once
  it is set, for any timestamps. The getter does not do that for a task that ended when
  the clock read 0: the task below started at \<open>-1000\<close>, was completed at 0, and its time
  is 0, not 1000.
\<close>

theorem time_at_epoch:
  "status epoch_task = COMPLETED \<and> start epoch_task = - 1000 \<and> end_ts epoch_task = Some 0 \<and>
   time epoch_task = 0"
  by (simp add: epoch_task_def epoch_world_def eval_defs)


subsection \<open>Dispatch to the sinks\<close>

lemma emit_emit: "emit cs2 (emit cs1 w) = emit (cs1 @ cs2) w"
  by (simp add: emit_def)

lemma emit_Nil: "emit [] w = w"
  by (simp add: emit_def)

lemma sink_out_emit_self: "sink_out (\<lambda>a. emit cs) a w = cs"
  by (simp add: sink_out_def emit_def)

lemma sendToGoogleAnalytics_emit:
  "sendToGoogleAnalytics a w = emit (sink_out sendToGoogleAnalytics a w) w"
proof -
  show ?thesis
  proof (cases "has_gtag w")
    case True
    then show ?thesis
      by (simp add: sink_out_def sendToGoogleAnalytics_def emit_def Let_def)
  next
    case False
    then show ?thesis
      by (cases "has_ga w") (simp_all add: sink_out_def sendToGoogleAnalytics_def emit_def Let_def)
  qed
qed

lemma sendToIntercom_emit: "sendToIntercom a w = emit (sink_out sendToIntercom a w) w"
  by (cases "has_Intercom w") (simp_all add: sink_out_def sendToIntercom_def emit_def Let_def)

lemma sendToSegment_emit: "sendToSegment a w = emit (sink_out sendToSegment a w) w"
  by (cases "has_analytics w") (simp_all add: sink_out_def sendToSegment_def emit_def Let_def)

lemma sink_out_calls:
  "sink_out sendToGoogleAnalytics a (w\<lparr>calls := cs\<rparr>) = sink_out sendToGoogleAnalytics a w"
  "sink_out sendToIntercom a (w\<lparr>calls := cs\<rparr>) = sink_out sendToIntercom a w"
  "sink_out sendToSegment a (w\<lparr>calls := cs\<rparr>) = sink_out sendToSegment a w"
  by (simp_all add: sink_out_def sendToGoogleAnalytics_def sendToIntercom_def
      sendToSegment_def emit_def Let_def)

lemma sink_out_emit:
  "sink_out sendToGoogleAnalytics a (emit cs w) = sink_out sendToGoogleAnalytics a w"
  "sink_out sendToIntercom a (emit cs w) = sink_out sendToIntercom a w"
  "sink_out sendToSegment a (emit cs w) = sink_out sendToSegment a w"
  by (simp_all add: emit_def sink_out_calls)

lemma track_emit:
  "track a w =
     emit ((if trackOnGoogleAnalytics (heap w ! a) then sink_out sendToGoogleAnalytics a w else [])
           @ (if trackOnIntercom (heap w ! a) then sink_out sendToIntercom a w else [])
           @ (if trackOnSegment (heap w ! a) then sink_out sendToSegment a w else [])) w"
proof -
  let ?g = "if trackOnGoogleAnalytics (heap w ! a) then sink_out sendToGoogleAnalytics a w else []"
  let ?i = "if trackOnIntercom (heap w ! a) then sink_out sendToIntercom a w else []"
  let ?s = "if trackOnSegment (heap w ! a) then sink_out sendToSegment a w else []"
  have g: "(if trackOnGoogleAnalytics (heap w ! a) then sendToGoogleAnalytics a w else w) = emit ?g w"
    using sendToGoogleAnalytics_emit [of a w] by (simp add: emit_Nil)
  have i: "(if trackOnIntercom (heap (emit ?g w) ! a) then sendToIntercom a (emit ?g w)
            else emit ?g w) = emit (?g @ ?i) w"
    using sendToIntercom_emit [of a "emit ?g w"]
    by (simp add: emit_emit sink_out_emit sink_out_calls emit_def)
  have s: "(if trackOnSegment (heap (emit (?g @ ?i) w) ! a) then sendToSegment a (emit (?g @ ?i) w)
            else emit (?g @ ?i) w) = emit ((?g @ ?i) @ ?s) w"
    using sendToSegment_emit [of a "emit (?g @ ?i) w"]
    by (simp add: emit_emit sink_out_emit sink_out_calls emit_def)
  show ?thesis
    unfolding track_def Let_def g i s by simp
qed

lemma calls_track:
  "calls (track a w) =
     calls w
     @ (if trackOnGoogleAnalytics (heap w ! a) then sink_out sendToGoogleAnalytics a w else [])
     @ (if trackOnIntercom (heap w ! a) then sink_out sendToIntercom a w else [])
     @ (if trackOnSegment (heap w ! a) then sink_out sendToSegment a w else [])"
  by (simp only: track_emit) (simp add: emit_def)

lemma sink_out_absent:
  "\<not> has_gtag w \<Longrightarrow> \<not> has_ga w \<Longrightarrow> sink_out sendToGoogleAnalytics a w = []"
  "\<not> has_Intercom w \<Longrightarrow> sink_out sendToIntercom a w = []"
  "\<not> has_analytics w \<Longrightarrow> sink_out sendToSegment a w = []"
  by (simp_all add: sink_out_def sendToGoogleAnalytics_def sendToIntercom_def
      sendToSegment_def)

lemma sink_out_independent:
  "sink_out sendToGoogleAnalytics a (w\<lparr>has_Intercom := i, has_analytics := s\<rparr>)
     = sink_out sendToGoogleAnalytics a w"
  "sink_out sendToIntercom a (w\<lparr>has_gtag := g, has_ga := g', has_analytics := s\<rparr>)
     = sink_out sendToIntercom a w"
  "sink_out sendToSegment a (w\<lparr>has_gtag := g, has_ga := g', has_Intercom := i\<rparr>)
     = sink_out sendToSegment a w"
  by (simp_all add: sink_out_def sendToGoogleAnalytics_def sendToIntercom_def
      sendToSegment_def emit_def Let_def)

lemma track_frame:
  "track a w = w\<lparr>calls := calls (track a w)\<rparr>"
  by (simp only: track_emit) (simp add: emit_def)

text \<open>
  C7. A terminal transition of a task in progress first writes \<^verbatim>\<open>end\<close> and
  \<^verbatim>\<open>status\<close>, and then invokes each forwarder whose flag is set once on that state,
  in the order Google Analytics, Intercom, Segment; nothing but the calls on the sinks
  is changed after the transition. A forwarder whose global is absent makes no call, and
  what a forwarder sends does not depend on the globals of the other two.
\<close>

theorem track_fixed_order:
  "a < length (heap w) \<and> status (heap w ! a) = IN_PROGRESS \<longrightarrow>
     finish st a w = (transition st a w)\<lparr>calls := calls (finish st a w)\<rparr> \<and>
     calls (finish st a w) =
       calls w
       @ (if trackOnGoogleAnalytics (heap w ! a)
          then sink_out sendToGoogleAnalytics a (transition st a w) else [])
       @ (if trackOnIntercom (heap w ! a)
          then sink_out sendToIntercom a (transition st a w) else [])
       @ (if trackOnSegment (heap w ! a)
          then sink_out sendToSegment a (transition st a w) else []) \<and>
     (\<not> has_gtag w \<and> \<not> has_ga w \<longrightarrow>
        sink_out sendToGoogleAnalytics a (transition st a w) = []) \<and>
     (\<not> has_Intercom w \<longrightarrow> sink_out sendToIntercom a (transition st a w) = []) \<and>
     (\<not> has_analytics w \<longrightarrow> sink_out sendToSegment a (transition st a w) = []) \<and>
     sink_out sendToGoogleAnalytics a ((transition st a w)\<lparr>has_Intercom := i, has_analytics := s\<rparr>)
       = sink_out sendToGoogleAnalytics a (transition st a w) \<and>
     sink_out sendToIntercom a ((transition st a w)\<lparr>has_gtag := g, has_ga := g', has_analytics := s\<rparr>)
       = sink_out sendToIntercom a (transition st a w) \<and>
     sink_out sendToSegment a ((transition st a w)\<lparr>has_gtag := g, has_ga := g', has_Intercom := i\<rparr>)
       = sink_out sendToSegment a (transition st a w)"
proof (intro impI)
  assume h: "a < length (heap w) \<and> status (heap w ! a) = IN_PROGRESS"
  let ?w' = "transition st a w"
  have fin: "finish st a w = track a ?w'"
    using h by (simp add: finish_in_progress)
  have flags: "trackOnGoogleAnalytics (heap ?w' ! a) = trackOnGoogleAnalytics (heap w ! a)"
    "trackOnIntercom (heap ?w' ! a) = trackOnIntercom (heap w ! a)"
    "trackOnSegment (heap ?w' ! a) = trackOnSegment (heap w ! a)"
    "calls ?w' = calls w"
    using h by (simp_all add: transition_def)
  have backends: "has_gtag ?w' = has_gtag w" "has_ga ?w' = has_ga w"
    "has_Intercom ?w' = has_Intercom w" "has_analytics ?w' = has_analytics w"
    by (simp_all add: transition_def)
  have c1: "finish st a w = ?w'\<lparr>calls := calls (finish st a w)\<rparr>"
    unfolding fin by (rule track_frame)
  have c2: "calls (finish st a w) =
       calls w
       @ (if trackOnGoogleAnalytics (heap w ! a)
          then sink_out sendToGoogleAnalytics a ?w' else [])
       @ (if trackOnIntercom (heap w ! a)
          then sink_out sendToIntercom a ?w' else [])
       @ (if trackOnSegment (heap w ! a)
          then sink_out sendToSegment a ?w' else [])"
    unfolding fin calls_track [of a ?w'] flags ..
  show "finish st a w = ?w'\<lparr>calls := calls (finish st a w)\<rparr> \<and>
     calls (finish st a w) =
       calls w
       @ (if trackOnGoogleAnalytics (heap w ! a)
          then sink_out sendToGoogleAnalytics a ?w' else [])
       @ (if trackOnIntercom (heap w ! a)
          then sink_out sendToIntercom a ?w' else [])
       @ (if trackOnSegment (heap w ! a)
          then sink_out sendToSegment a ?w' else []) \<and>
     (\<not> has_gtag w \<and> \<not> has_ga w \<longrightarrow>
        sink_out sendToGoogleAnalytics a ?w' = []) \<and>
     (\<not> has_Intercom w \<longrightarrow> sink_out sendToIntercom a ?w' = []) \<and>
     (\<not> has_analytics w \<longrightarrow> sink_out sendToSegment a ?w' = []) \<and>
     sink_out sendToGoogleAnalytics a (?w'\<lparr>has_Intercom := i, has_analytics := s\<rparr>)
       = sink_out sendToGoogleAnalytics a ?w' \<and>
     sink_out sendToIntercom a (?w'\<lparr>has_gtag := g, has_ga := g', has_analytics := s\<rparr>)
       = sink_out sendToIntercom a ?w' \<and>
     sink_out sendToSegment a (?w'\<lparr>has_gtag := g, has_ga := g', has_Intercom := i\<rparr>)
       = sink_out sendToSegment a ?w'"
    using c1 c2 sink_out_absent [where w = ?w' and a = a]
      sink_out_independent [where w = ?w' and a = a]
    by (simp only: backends simp_thms) blast
qed

theorem track_fixed_order_witness:
  "(0 < length (heap world2) \<and> status (heap world2 ! 0) = IN_PROGRESS) \<and>
   \<not> has_Intercom world2 \<and>
   heap (finish COMPLETED 0 world2) = heap (transition COMPLETED 0 world2) \<and>
   calls (finish COMPLETED 0 world2) =
     [Ga [JStr ''send'', JStr ''timing'', JStr ''signup'', JStr ''Completed'', JNum 500,
          JStr ''Time on task''],
      Ga [JStr ''send'', JStr ''event'', JStr ''signup'', JStr ''Completed'', JStr ''Error'',
          JNum 0],
      Ga [JStr ''send'', JStr ''event'', JStr ''signup'', JStr ''Completed'', JStr ''Effort'',
          JNum 0],
      Analytics_track ''signup''
        [(''category'', JStr ''signup''), (''action'', JStr ''Completed''),
         (''label'', JStr ''Task''), (''value'', JNum 1), (''errors'', JNum 0),
         (''effort'', JNum 0), (''time'', JNum 500), (''result'', JStr ''Completed''),
         (''started'', JNum 1000)]]"
proof -
  have w2: "world2 = world0\<lparr>has_Intercom := False, ticks := 1,
      DEFAULTS := \<lparr>d_trackOnGoogleAnalytics = True, d_trackOnIntercom = True,
                     d_trackOnSegment = True\<rparr>,
      heap := [\<lparr>name = ''signup'', status = IN_PROGRESS, effort = 0, errors = 0, start = 1000,
                end_ts = None, trackOnGoogleAnalytics = True, trackOnIntercom = True,
                trackOnSegment = True, parentTask = None\<rparr>]\<rparr>"
    by (simp add: world2_def world0_def HuhaTask_new_def Object_assign_def pick_def getTime_def)
  have a: "0 < length (heap world2) \<and> status (heap world2 ! 0) = IN_PROGRESS"
    by (simp add: w2)
  have b: "\<not> has_Intercom world2"
    by (simp add: w2 world0_def)
  have c: "trackOnGoogleAnalytics (heap world2 ! 0)" "trackOnIntercom (heap world2 ! 0)"
    "trackOnSegment (heap world2 ! 0)" "calls world2 = []"
    by (simp_all add: w2 world0_def)
  have d: "sink_out sendToGoogleAnalytics 0 (transition COMPLETED 0 world2) =
     [Ga [JStr ''send'', JStr ''timing'', JStr ''signup'', JStr ''Completed'', JNum 500,
          JStr ''Time on task''],
      Ga [JStr ''send'', JStr ''event'', JStr ''signup'', JStr ''Completed'', JStr ''Error'',
          JNum 0],
      Ga [JStr ''send'', JStr ''event'', JStr ''signup'', JStr ''Completed'', JStr ''Effort'',
          JNum 0]]"
    by (simp add: sink_out_def w2 world0_def transition_def sendToGoogleAnalytics_def
        sendToSegment_def emit_def time_def)
  have e: "sink_out sendToSegment 0 (transition COMPLETED 0 world2) =
     [Analytics_track ''signup''
        [(''category'', JStr ''signup''), (''action'', JStr ''Completed''),
         (''label'', JStr ''Task''), (''value'', JNum 1), (''errors'', JNum 0),
         (''effort'', JNum 0), (''time'', JNum 500), (''result'', JStr ''Completed''),
         (''started'', JNum 1000)]]"
    by (simp add: sink_out_def w2 world0_def transition_def sendToGoogleAnalytics_def
        sendToSegment_def emit_def time_def)
  note t = track_fixed_order [of 0 world2 COMPLETED True True True True, THEN mp, OF a]
  have f: "sink_out sendToIntercom 0 (transition COMPLETED 0 world2) = []"
    using t b by blast
  have "heap (finish COMPLETED 0 world2) = heap (transition COMPLETED 0 world2)"
    by (subst t [THEN conjunct1]) simp
  moreover have "calls (finish COMPLETED 0 world2) =
      sink_out sendToGoogleAnalytics 0 (transition COMPLETED 0 world2)
      @ sink_out sendToSegment 0 (transition COMPLETED 0 world2)"
    by (subst t [THEN conjunct2, THEN conjunct1]) (simp add: c f)
  ultimately show ?thesis
    using a b by (simp add: d e)
qed



subsection \<open>Interactions that are ignored\<close>

lemma getTask_None:
  "\<not> (\<exists>a \<in> set (tasks h). name (heap w ! a) = nm \<and> status (heap w ! a) = IN_PROGRESS)
   \<Longrightarrow> getTask nm h w = None"
  by (auto simp add: getTask_def find_None_iff)

text \<open>
  C5. \<open>registerEvent\<close> with a captured event that is not the trigger declared on the
  element returns and leaves the registry and everything else as they are. When the
  trigger matches, the event type is not \<^verbatim>\<open>start\<close> (so it is \<^verbatim>\<open>complete\<close>,
  \<^verbatim>\<open>abandon\<close>, \<^verbatim>\<open>interaction\<close>, \<^verbatim>\<open>error\<close> or anything else) and the registry has
  no task in progress with the declared name, it does the same.
\<close>

theorem registerEvent_ignored:
  "(huhaTrigger el \<noteq> Some capturedEvent \<longrightarrow>
      registerEvent capturedEvent el h w = Some (h, w)) \<and>
   (huhaTrigger el = Some capturedEvent \<and> huhaEvent el \<noteq> Some ''start'' \<and>
    \<not> (\<exists>a \<in> set (tasks h).
          name (heap w ! a) = huhaTask el \<and> status (heap w ! a) = IN_PROGRESS) \<longrightarrow>
      registerEvent capturedEvent el h w = Some (h, w))"
proof (intro conjI impI)
  assume "huhaTrigger el \<noteq> Some capturedEvent"
  then have "Some capturedEvent \<noteq> huhaTrigger el" by (rule not_sym)
  then show "registerEvent capturedEvent el h w = Some (h, w)"
    by (simp add: registerEvent_def)
next
  assume h: "huhaTrigger el = Some capturedEvent \<and> huhaEvent el \<noteq> Some ''start'' \<and>
    \<not> (\<exists>a \<in> set (tasks h).
          name (heap w ! a) = huhaTask el \<and> status (heap w ! a) = IN_PROGRESS)"
  then have "getTask (huhaTask el) h w = None" by (simp add: getTask_None)
  with h show "registerEvent capturedEvent el h w = Some (h, w)"
    by (simp add: registerEvent_def)
qed

theorem registerEvent_ignored_witness:
  "huhaTrigger focus_on_click_element \<noteq> Some ''focus'' \<and>
   registerEvent ''focus'' focus_on_click_element registry0 world0 = Some (registry0, world0) \<and>
   huhaTrigger complete_element = Some ''click'' \<and>
   huhaEvent complete_element \<noteq> Some ''start'' \<and>
   \<not> (\<exists>a \<in> set (tasks registry0).
         name (heap world0 ! a) = huhaTask complete_element \<and>
         status (heap world0 ! a) = IN_PROGRESS) \<and>
   registerEvent ''click'' complete_element registry0 world0 = Some (registry0, world0)"
proof -
  have a: "huhaTrigger focus_on_click_element \<noteq> Some ''focus''"
    by (simp add: focus_on_click_element_def)
  have b: "huhaTrigger complete_element = Some ''click'' \<and>
     huhaEvent complete_element \<noteq> Some ''start'' \<and>
     \<not> (\<exists>a \<in> set (tasks registry0).
         name (heap world0 ! a) = huhaTask complete_element \<and>
         status (heap world0 ! a) = IN_PROGRESS)"
    by (simp add: complete_element_def registry0_def Huha_new_def Let_def)
  show ?thesis
    using a b registerEvent_ignored [of focus_on_click_element "''focus''" registry0 world0]
      registerEvent_ignored [of complete_element "''click''" registry0 world0]
    by blast
qed

subsection \<open>The shared defaults\<close>

lemma Huha_new_DEFAULTS:
  "DEFAULTS (snd (Huha_new (Some opts) w)) = Object_assign (DEFAULTS w) (Some opts)"
  by (simp add: Huha_new_def Let_def)

lemma HuhaTask_new_DEFAULTS:
  "DEFAULTS (snd (HuhaTask_new nm parent (Some opts) w)) = Object_assign (DEFAULTS w) (Some opts)"
  by (simp add: HuhaTask_new_def getTime_def Let_def)

lemma HuhaEvent_new_DEFAULTS:
  "DEFAULTS (snd (HuhaEvent_new nm obj act sec val tsk grp (Some opts) w))
     = Object_assign (DEFAULTS w) (Some opts)"
  by (simp add: HuhaEvent_new_def uuidv1_def Let_def split: option.splits)

lemma Huha_new_flags:
  "h_trackOnGoogleAnalytics (fst (Huha_new opts w)) =
     pick (d_trackOnGoogleAnalytics (DEFAULTS w)) (o_trackOnGoogleAnalytics (options_or_empty opts))"
  "h_trackOnIntercom (fst (Huha_new opts w)) =
     pick (d_trackOnIntercom (DEFAULTS w)) (o_trackOnIntercom (options_or_empty opts))"
  "h_trackOnSegment (fst (Huha_new opts w)) =
     pick (d_trackOnSegment (DEFAULTS w)) (o_trackOnSegment (options_or_empty opts))"
  by (simp_all add: Huha_new_def Let_def Object_assign_def options_or_empty_def)

lemma HuhaTask_new_flags:
  "trackOnGoogleAnalytics (heap (snd (HuhaTask_new nm parent opts w)) ! fst (HuhaTask_new nm parent opts w)) =
     pick (d_trackOnGoogleAnalytics (DEFAULTS w)) (o_trackOnGoogleAnalytics (options_or_empty opts))"
  "trackOnIntercom (heap (snd (HuhaTask_new nm parent opts w)) ! fst (HuhaTask_new nm parent opts w)) =
     pick (d_trackOnIntercom (DEFAULTS w)) (o_trackOnIntercom (options_or_empty opts))"
  "trackOnSegment (heap (snd (HuhaTask_new nm parent opts w)) ! fst (HuhaTask_new nm parent opts w)) =
     pick (d_trackOnSegment (DEFAULTS w)) (o_trackOnSegment (options_or_empty opts))"
  by (simp_all add: HuhaTask_new_def getTime_def Let_def Object_assign_def options_or_empty_def
      no_options_def pick_def split: option.splits)

lemma HuhaEvent_new_flags:
  "e_trackOnGoogleAnalytics (fst (HuhaEvent_new nm obj act sec val tsk grp opts w)) =
     pick (d_trackOnGoogleAnalytics (DEFAULTS w)) (o_trackOnGoogleAnalytics (options_or_empty opts))"
  "e_trackOnSegment (fst (HuhaEvent_new nm obj act sec val tsk grp opts w)) =
     pick (d_trackOnSegment (DEFAULTS w)) (o_trackOnSegment (options_or_empty opts))"
  by (simp_all add: HuhaEvent_new_def uuidv1_def Let_def Object_assign_def options_or_empty_def
      split: option.splits)


lemma DEFAULTS_finish: "DEFAULTS (finish st a w) = DEFAULTS w"
  by (simp add: finish_def getTime_def track_emit emit_def Let_def)

lemma default_of_assign:
  "default_of k (Object_assign d (Some opts)) =
     (case option_of k opts of None \<Rightarrow> default_of k d | Some b \<Rightarrow> b)"
  by (cases k) (simp_all add: Object_assign_def pick_def split: option.splits)

lemma DEFAULTS_construct:
  "DEFAULTS (construct c w) = Object_assign (DEFAULTS w) (Some (given c))"
proof (cases c)
  case (New_Huha opts)
  then show ?thesis by (simp add: Huha_new_def Let_def options_or_empty_def)
next
  case (New_HuhaTask nm parent opts)
  then show ?thesis
    by (cases opts)
      (simp_all add: HuhaTask_new_def getTime_def Let_def options_or_empty_def Object_assign_def
        pick_def no_options_def)
next
  case (New_HuhaEvent nm obj act sec val tsk grp opts)
  then show ?thesis
    by (simp add: HuhaEvent_new_def uuidv1_def Let_def options_or_empty_def split: option.splits)
qed

lemma default_of_construct:
  "default_of k (DEFAULTS (construct c w)) =
     (case option_of k (given c) of None \<Rightarrow> default_of k (DEFAULTS w) | Some b \<Rightarrow> b)"
  by (simp add: DEFAULTS_construct default_of_assign)

lemma constructed_flag:
  "stores k c \<Longrightarrow>
   constructed k c w =
     Some (case option_of k (given c) of None \<Rightarrow> default_of k (DEFAULTS w) | Some b \<Rightarrow> b)"
proof (cases c)
  case (New_Huha opts)
  then show ?thesis
    by (cases k) (simp_all add: Huha_new_flags pick_def split: option.splits)
next
  case (New_HuhaTask nm parent opts)
  then show ?thesis
    by (cases k) (simp_all add: HuhaTask_new_flags pick_def split: option.splits)
next
  case (New_HuhaEvent nm obj act sec val tsk grp opts)
  assume "stores k c"
  with New_HuhaEvent show ?thesis
    by (cases k) (simp_all add: HuhaEvent_new_flags pick_def split: option.splits)
qed

lemma default_of_constructions:
  "default_of k (DEFAULTS (fold construct cs w)) =
     (case last_given k cs of None \<Rightarrow> default_of k (DEFAULTS w) | Some v \<Rightarrow> v)"
proof (induction cs arbitrary: w)
  case Nil
  show ?case by simp
next
  case (Cons c cs)
  show ?case
    by (simp add: Cons.IH default_of_construct split: option.splits)
qed

text \<open>
  C9. A construction writes each flag its options give into the module-level
  \<^verbatim>\<open>DEFAULTS\<close> and leaves the others; after a sequence of constructions each flag of
  \<^verbatim>\<open>DEFAULTS\<close> has the value that the last construction giving it gave, and its
  starting value only if none gave it. A terminal transition does not write
  \<^verbatim>\<open>DEFAULTS\<close>. So in any later state with that \<^verbatim>\<open>DEFAULTS\<close>, a construction whose
  options omit a flag stores the value the last earlier caller gave, not the initial
  default; a construction whose options give the flag stores its own value.
\<close>

theorem DEFAULTS_mutated:
  "default_of k (DEFAULTS (construct c w)) =
     (case option_of k (given c) of None \<Rightarrow> default_of k (DEFAULTS w) | Some b \<Rightarrow> b) \<and>
   default_of k (DEFAULTS (fold construct cs w)) =
     (case last_given k cs of None \<Rightarrow> default_of k (DEFAULTS w) | Some v \<Rightarrow> v) \<and>
   DEFAULTS (finish st a w) = DEFAULTS w \<and>
   (last_given k cs = Some v \<and> DEFAULTS w' = DEFAULTS (fold construct cs w) \<and>
    option_of k (given c) = None \<and> stores k c \<longrightarrow>
      constructed k c w' = Some v) \<and>
   (option_of k (given c) = Some b \<and> stores k c \<longrightarrow> constructed k c w' = Some b)"
proof (intro conjI impI)
  show "default_of k (DEFAULTS (construct c w)) =
     (case option_of k (given c) of None \<Rightarrow> default_of k (DEFAULTS w) | Some b \<Rightarrow> b)"
    by (rule default_of_construct)
  show "default_of k (DEFAULTS (fold construct cs w)) =
     (case last_given k cs of None \<Rightarrow> default_of k (DEFAULTS w) | Some v \<Rightarrow> v)"
    by (rule default_of_constructions)
  show "DEFAULTS (finish st a w) = DEFAULTS w" by (rule DEFAULTS_finish)
next
  assume h: "last_given k cs = Some v \<and> DEFAULTS w' = DEFAULTS (fold construct cs w) \<and>
    option_of k (given c) = None \<and> stores k c"
  then have "default_of k (DEFAULTS w') = v"
    by (simp add: default_of_constructions)
  with h show "constructed k c w' = Some v"
    by (simp add: constructed_flag)
next
  assume "option_of k (given c) = Some b \<and> stores k c"
  then show "constructed k c w' = Some b"
    by (simp add: constructed_flag)
qed

theorem DEFAULTS_mutated_witness:
  "DEFAULTS world0 = DEFAULTS_initial \<and>
   DEFAULTS world6 = DEFAULTS (fold construct constructions_demo world0) \<and>
   last_given TrackOnSegment constructions_demo = Some False \<and>
   option_of TrackOnSegment (given later_task) = None \<and> stores TrackOnSegment later_task \<and>
   constructed TrackOnSegment later_task world6 = Some False \<and>
   default_of TrackOnSegment DEFAULTS_initial = True \<and>
   last_given TrackOnIntercom constructions_demo = Some True \<and>
   option_of TrackOnIntercom (given later_task) = None \<and> stores TrackOnIntercom later_task \<and>
   constructed TrackOnIntercom later_task world6 = Some True \<and>
   default_of TrackOnIntercom DEFAULTS_initial = False \<and>
   option_of TrackOnSegment (given later_huha) = Some True \<and> stores TrackOnSegment later_huha \<and>
   constructed TrackOnSegment later_huha world6 = Some True"
proof -
  have a: "DEFAULTS world0 = DEFAULTS_initial"
    "default_of TrackOnSegment DEFAULTS_initial = True"
    "default_of TrackOnIntercom DEFAULTS_initial = False"
    by (simp_all add: world0_def DEFAULTS_initial_def)
  have b: "DEFAULTS world6 = DEFAULTS (fold construct constructions_demo world0)"
    by (simp add: world6_def complete_def DEFAULTS_finish)
  have s: "last_given TrackOnSegment constructions_demo = Some False"
    "option_of TrackOnSegment (given later_task) = None" "stores TrackOnSegment later_task"
    by (simp_all add: constructions_demo_def later_task_def options_or_empty_def no_options_def)
  have i: "last_given TrackOnIntercom constructions_demo = Some True"
    "option_of TrackOnIntercom (given later_task) = None" "stores TrackOnIntercom later_task"
    by (simp_all add: constructions_demo_def later_task_def options_or_empty_def no_options_def)
  have g: "option_of TrackOnSegment (given later_huha) = Some True"
    "stores TrackOnSegment later_huha"
    by (simp_all add: later_huha_def options_or_empty_def)
  show ?thesis
    using a b s i g
      DEFAULTS_mutated [where k = TrackOnSegment and cs = constructions_demo and w = world0
        and w' = world6 and c = later_task and v = False]
      DEFAULTS_mutated [where k = TrackOnIntercom and cs = constructions_demo and w = world0
        and w' = world6 and c = later_task and v = True]
      DEFAULTS_mutated [where k = TrackOnSegment and c = later_huha and w' = world6 and b = True]
    by blast
qed


lemma DEFAULTS_mutated_example:
  "fst (Huha_new None
         (snd (Huha_new (Some \<lparr>o_trackOnGoogleAnalytics = Some True, o_trackOnIntercom = None,
                               o_trackOnSegment = Some False\<rparr>) world0)))
   = \<lparr>tasks = [], events = [], h_trackOnGoogleAnalytics = True, h_trackOnIntercom = False,
      h_trackOnSegment = False\<rparr>"
  by (simp add: Huha_new_def world0_def DEFAULTS_initial_def Object_assign_def pick_def
      no_options_def)

subsection \<open>Events and Intercom\<close>

lemma HuhaEvent_track_emit:
  "HuhaEvent_track e w =
     emit ((if e_trackOnGoogleAnalytics e then
              if has_gtag w then
                [Gtag ''event'' (e_action e)
                   [(''event_category'', JStr (e_section e)),
                    (''event_label'', JStr (e_object e)),
                    (''value'', JStr (e_value e))]]
              else if has_ga w then
                [Ga [JStr ''send'', JStr ''event'', JStr (e_section e), JStr (e_action e),
                     JStr (e_object e), JStr (e_value e)]]
              else []
            else [])
           @ (if e_trackOnSegment e \<and> has_analytics w then
                [Analytics_track (e_name e)
                   [(''category'', JStr (e_section e)),
                    (''label'', JStr (e_object e)),
                    (''action'', JStr (e_action e)),
                    (''value'', JStr (e_value e)),
                    (''eventGroup'', JStr (eventGroup e))]]
              else [])) w"
  by (simp add: HuhaEvent_track_def HuhaEvent_sendToGoogleAnalytics_def
      HuhaEvent_sendToSegment_def emit_def)

lemma HuhaEvent_track_no_Intercom:
  "filter is_Intercom (calls (HuhaEvent_track e w)) = filter is_Intercom (calls w)"
  by (simp add: HuhaEvent_track_emit emit_def)

lemma HuhaEvent_new_calls: "calls (snd (HuhaEvent_new nm obj act sec val tsk grp opts w)) = calls w"
  by (simp add: HuhaEvent_new_def uuidv1_def Let_def split: option.splits)

lemma createEvent_no_Intercom:
  "filter is_Intercom (calls (snd (snd (createEvent nm obj act sec val tsk grp h w))))
     = filter is_Intercom (calls w)"
  by (simp add: createEvent_def Let_def split_beta HuhaEvent_track_no_Intercom HuhaEvent_new_calls)

lemma createEvent_ignores_flag:
  "fst (createEvent nm obj act sec val tsk grp (h\<lparr>h_trackOnIntercom := b\<rparr>) w)
     = fst (createEvent nm obj act sec val tsk grp h w)"
  "snd (snd (createEvent nm obj act sec val tsk grp (h\<lparr>h_trackOnIntercom := b\<rparr>) w))
     = snd (snd (createEvent nm obj act sec val tsk grp h w))"
  by (simp_all add: createEvent_def Let_def split_beta)

lemma HuhaEvent_new_ignores_option:
  "fst (HuhaEvent_new nm obj act sec val tsk grp (Some (opts\<lparr>o_trackOnIntercom := x\<rparr>)) w)
     = fst (HuhaEvent_new nm obj act sec val tsk grp (Some opts) w)"
  by (simp add: HuhaEvent_new_def uuidv1_def Let_def Object_assign_def split: option.splits)

lemma HuhaEvent_track_has_Intercom:
  "HuhaEvent_track e (w\<lparr>has_Intercom := i\<rparr>) = (HuhaEvent_track e w)\<lparr>has_Intercom := i\<rparr>"
  by (simp add: HuhaEvent_track_def HuhaEvent_sendToGoogleAnalytics_def
      HuhaEvent_sendToSegment_def emit_def)

text \<open>
  C10. Tracking an event makes no call on \<^verbatim>\<open>Intercom\<close>, through \<open>HuhaEvent_track\<close>
  or through \<open>createEvent\<close>; whether \<^verbatim>\<open>Intercom\<close> is loaded changes nothing else in
  the result. The Intercom flag of the registry changes neither the event \<open>createEvent\<close>
  returns nor the state it leaves, and the Intercom option of the constructor does not
  change the event constructed.
\<close>

theorem event_never_Intercom:
  "filter is_Intercom (calls (HuhaEvent_track e w)) = filter is_Intercom (calls w) \<and>
   filter is_Intercom (calls (snd (snd (createEvent nm obj act sec val tsk grp h w))))
     = filter is_Intercom (calls w) \<and>
   HuhaEvent_track e (w\<lparr>has_Intercom := i\<rparr>) = (HuhaEvent_track e w)\<lparr>has_Intercom := i\<rparr> \<and>
   fst (createEvent nm obj act sec val tsk grp (h\<lparr>h_trackOnIntercom := b\<rparr>) w)
     = fst (createEvent nm obj act sec val tsk grp h w) \<and>
   snd (snd (createEvent nm obj act sec val tsk grp (h\<lparr>h_trackOnIntercom := b\<rparr>) w))
     = snd (snd (createEvent nm obj act sec val tsk grp h w)) \<and>
   fst (HuhaEvent_new nm obj act sec val tsk grp (Some (opts\<lparr>o_trackOnIntercom := x\<rparr>)) w)
     = fst (HuhaEvent_new nm obj act sec val tsk grp (Some opts) w)"
  by (intro conjI HuhaEvent_track_no_Intercom createEvent_no_Intercom
      HuhaEvent_track_has_Intercom createEvent_ignores_flag HuhaEvent_new_ignores_option)



subsection \<open>Propagation of the counters to the ancestors\<close>

lemma heap_okD:
  "heap_ok hp \<Longrightarrow> a < length hp \<Longrightarrow> parentTask (hp ! a) = Some p \<Longrightarrow> p < a"
  by (auto simp add: heap_ok_def list_all_iff split: option.splits)

lemma heap_okI:
  "(\<And>a p. a < length hp \<Longrightarrow> parentTask (hp ! a) = Some p \<Longrightarrow> p < a) \<Longrightarrow> heap_ok hp"
  by (auto simp add: heap_ok_def list_all_iff split: option.splits)

lemma chain_le: "x \<in> set (chain hp a) \<Longrightarrow> x \<le> a"
proof (induction hp a rule: chain.induct)
  case (1 hp a)
  show ?case
  proof (cases "parentTask (hp ! a)")
    case None
    with "1.prems" show ?thesis by (simp add: chain.simps [of hp a])
  next
    case (Some p)
    with "1.prems" "1.IH" [OF Some] show ?thesis
      by (auto simp add: chain.simps [of hp a] split: if_splits)
  qed
qed

lemma chain_self: "a \<in> set (chain hp a)"
  by (simp add: chain.simps [of hp a])

lemma chain_cong:
  "(\<And>b. b \<le> a \<Longrightarrow> parentTask (hp' ! b) = parentTask (hp ! b)) \<Longrightarrow> chain hp' a = chain hp a"
proof (induction hp a rule: chain.induct)
  case (1 hp a)
  have same: "parentTask (hp' ! a) = parentTask (hp ! a)" using "1.prems" by simp
  show ?case
  proof (cases "parentTask (hp ! a)")
    case None
    with same show ?thesis by (simp add: chain.simps [of _ a])
  next
    case (Some p)
    show ?thesis
    proof (cases "p < a")
      case True
      have "chain hp' p = chain hp p"
        using "1.IH" [OF Some True] "1.prems" True by simp
      with Some same True show ?thesis by (simp add: chain.simps [of _ a])
    next
      case False
      with Some same show ?thesis by (simp add: chain.simps [of _ a])
    qed
  qed
qed

lemma addInteraction_effect:
  "heap_ok (heap w) \<Longrightarrow> a < length (heap w) \<Longrightarrow>
   \<exists>w'. addInteraction a w = Some w' \<and> w' = w\<lparr>heap := heap w'\<rparr> \<and>
        length (heap w') = length (heap w) \<and>
        (\<forall>b < length (heap w).
           heap w' ! b =
             (if b \<in> set (chain (heap w) a)
              then (heap w ! b)\<lparr>effort := effort (heap w ! b) + 1\<rparr> else heap w ! b))"
proof (induction a arbitrary: w rule: less_induct)
  case (less a)
  let ?t = "heap w ! a"
  let ?w1 = "w\<lparr>heap := (heap w)[a := ?t\<lparr>effort := effort ?t + 1\<rparr>]\<rparr>"
  show ?case
  proof (cases "parentTask ?t")
    case None
    then have "addInteraction a w = Some ?w1"
      by (subst addInteraction.simps) (simp add: Let_def)
    moreover have "chain (heap w) a = [a]" using None by (simp add: chain.simps [of _ a])
    ultimately show ?thesis using less.prems
      by (auto simp add: nth_list_update)
  next
    case (Some p)
    have pa: "p < a" using heap_okD [OF less.prems(1) less.prems(2) Some] .
    have step: "addInteraction a w = addInteraction p ?w1"
      using Some by (subst addInteraction.simps) (simp add: Let_def)
    have parents: "parentTask (heap ?w1 ! b) = parentTask (heap w ! b)" for b
      using less.prems(2) by (cases "b = a") simp_all
    have ok1: "heap_ok (heap ?w1)"
    proof (rule heap_okI)
      fix b q assume "b < length (heap ?w1)" "parentTask (heap ?w1 ! b) = Some q"
      then show "q < b" using heap_okD [OF less.prems(1), of b q] parents [of b] by simp
    qed
    have len1: "p < length (heap ?w1)" using pa less.prems(2) by simp
    from less.IH [OF pa ok1 len1] obtain w' where
      r: "addInteraction p ?w1 = Some w'" and fr: "w' = ?w1\<lparr>heap := heap w'\<rparr>"
      and len: "length (heap w') = length (heap ?w1)"
      and pt: "\<forall>b < length (heap ?w1).
           heap w' ! b =
             (if b \<in> set (chain (heap ?w1) p)
              then (heap ?w1 ! b)\<lparr>effort := effort (heap ?w1 ! b) + 1\<rparr> else heap ?w1 ! b)"
      by blast
    have ch1: "chain (heap ?w1) p = chain (heap w) p"
      by (rule chain_cong) (rule parents)
    have ch: "chain (heap w) a = a # chain (heap w) p"
      using Some pa by (simp add: chain.simps [of _ a])
    have notin: "a \<notin> set (chain (heap w) p)"
      using chain_le [of a "heap w" p] pa by auto
    have "w' = w\<lparr>heap := heap w'\<rparr>" by (subst fr) simp
    moreover have "length (heap w') = length (heap w)" using len by simp
    moreover have "\<forall>b < length (heap w).
           heap w' ! b =
             (if b \<in> set (chain (heap w) a)
              then (heap w ! b)\<lparr>effort := effort (heap w ! b) + 1\<rparr> else heap w ! b)"
    proof (intro allI impI)
      fix b assume b: "b < length (heap w)"
      then have "heap w' ! b =
             (if b \<in> set (chain (heap w) p)
              then (heap ?w1 ! b)\<lparr>effort := effort (heap ?w1 ! b) + 1\<rparr> else heap ?w1 ! b)"
        using pt ch1 by simp
      then show "heap w' ! b =
             (if b \<in> set (chain (heap w) a)
              then (heap w ! b)\<lparr>effort := effort (heap w ! b) + 1\<rparr> else heap w ! b)"
        using notin b by (cases "b = a") (simp_all add: ch)
    qed
    ultimately show ?thesis using step r by simp
  qed
qed

lemma addError_effect:
  "heap_ok (heap w) \<Longrightarrow> a < length (heap w) \<Longrightarrow>
   \<exists>w'. addError a w = Some w' \<and> w' = w\<lparr>heap := heap w'\<rparr> \<and>
        length (heap w') = length (heap w) \<and>
        (\<forall>b < length (heap w).
           heap w' ! b =
             (if b \<in> set (chain (heap w) a)
              then (heap w ! b)\<lparr>errors := errors (heap w ! b) + 1\<rparr> else heap w ! b))"
proof (induction a arbitrary: w rule: less_induct)
  case (less a)
  let ?t = "heap w ! a"
  let ?w1 = "w\<lparr>heap := (heap w)[a := ?t\<lparr>errors := errors ?t + 1\<rparr>]\<rparr>"
  show ?case
  proof (cases "parentTask ?t")
    case None
    then have "addError a w = Some ?w1"
      by (subst addError.simps) (simp add: Let_def)
    moreover have "chain (heap w) a = [a]" using None by (simp add: chain.simps [of _ a])
    ultimately show ?thesis using less.prems
      by (auto simp add: nth_list_update)
  next
    case (Some p)
    have pa: "p < a" using heap_okD [OF less.prems(1) less.prems(2) Some] .
    have step: "addError a w = addError p ?w1"
      using Some by (subst addError.simps) (simp add: Let_def)
    have parents: "parentTask (heap ?w1 ! b) = parentTask (heap w ! b)" for b
      using less.prems(2) by (cases "b = a") simp_all
    have ok1: "heap_ok (heap ?w1)"
    proof (rule heap_okI)
      fix b q assume "b < length (heap ?w1)" "parentTask (heap ?w1 ! b) = Some q"
      then show "q < b" using heap_okD [OF less.prems(1), of b q] parents [of b] by simp
    qed
    have len1: "p < length (heap ?w1)" using pa less.prems(2) by simp
    from less.IH [OF pa ok1 len1] obtain w' where
      r: "addError p ?w1 = Some w'" and fr: "w' = ?w1\<lparr>heap := heap w'\<rparr>"
      and len: "length (heap w') = length (heap ?w1)"
      and pt: "\<forall>b < length (heap ?w1).
           heap w' ! b =
             (if b \<in> set (chain (heap ?w1) p)
              then (heap ?w1 ! b)\<lparr>errors := errors (heap ?w1 ! b) + 1\<rparr> else heap ?w1 ! b)"
      by blast
    have ch1: "chain (heap ?w1) p = chain (heap w) p"
      by (rule chain_cong) (rule parents)
    have ch: "chain (heap w) a = a # chain (heap w) p"
      using Some pa by (simp add: chain.simps [of _ a])
    have notin: "a \<notin> set (chain (heap w) p)"
      using chain_le [of a "heap w" p] pa by auto
    have "w' = w\<lparr>heap := heap w'\<rparr>" by (subst fr) simp
    moreover have "length (heap w') = length (heap w)" using len by simp
    moreover have "\<forall>b < length (heap w).
           heap w' ! b =
             (if b \<in> set (chain (heap w) a)
              then (heap w ! b)\<lparr>errors := errors (heap w ! b) + 1\<rparr> else heap w ! b)"
    proof (intro allI impI)
      fix b assume b: "b < length (heap w)"
      then have "heap w' ! b =
             (if b \<in> set (chain (heap w) p)
              then (heap ?w1 ! b)\<lparr>errors := errors (heap ?w1 ! b) + 1\<rparr> else heap ?w1 ! b)"
        using pt ch1 by simp
      then show "heap w' ! b =
             (if b \<in> set (chain (heap w) a)
              then (heap w ! b)\<lparr>errors := errors (heap w ! b) + 1\<rparr> else heap w ! b)"
        using notin b by (cases "b = a") (simp_all add: ch)
    qed
    ultimately show ?thesis using step r by simp
  qed
qed


lemma count_call_effect:
  assumes "heap_ok (heap w)" and "a < length (heap w)"
  shows "\<exists>w'. count_call k a w = Some w' \<and> w' = w\<lparr>heap := heap w'\<rparr> \<and>
        length (heap w') = length (heap w) \<and>
        (\<forall>b < length (heap w).
           heap w' ! b =
             (heap w ! b)
               \<lparr>effort := effort (heap w ! b) + calls_reaching (heap w) Interaction b [(k, a)],
                errors := errors (heap w ! b) + calls_reaching (heap w) Error b [(k, a)]\<rparr>)"
proof (cases k)
  case Interaction
  with addInteraction_effect [OF assms] show ?thesis
    by (auto simp add: calls_reaching_def)
next
  case Error
  with addError_effect [OF assms] show ?thesis
    by (auto simp add: calls_reaching_def)
qed

lemma calls_reaching_Cons:
  "calls_reaching hp k b (x # cs) = calls_reaching hp k b [x] + calls_reaching hp k b cs"
  by (simp add: calls_reaching_def)

lemma calls_reaching_cong:
  assumes "\<And>c. c < n \<Longrightarrow> chain hp' c = chain hp c" and "\<forall>(k', c) \<in> set cs. c < n"
  shows "calls_reaching hp' k b cs = calls_reaching hp k b cs"
proof -
  have "filter (\<lambda>(k', c). k' = k \<and> b \<in> set (chain hp' c)) cs
      = filter (\<lambda>(k', c). k' = k \<and> b \<in> set (chain hp c)) cs"
    using assms by (intro filter_cong) auto
  then show ?thesis by (simp add: calls_reaching_def)
qed

lemma chain_trans:
  "t \<in> set (chain hp c) \<Longrightarrow> b \<in> set (chain hp t) \<Longrightarrow> b \<in> set (chain hp c)"
proof (induction hp c rule: chain.induct)
  case (1 hp c)
  show ?case
  proof (cases "t = c")
    case True
    with "1.prems" show ?thesis by simp
  next
    case False
    with "1.prems"(1) have
      "\<exists>p. parentTask (hp ! c) = Some p \<and> p < c \<and> t \<in> set (chain hp p)"
      by (cases "parentTask (hp ! c)") (auto simp add: chain.simps [of hp c] split: if_splits)
    then obtain p where p: "parentTask (hp ! c) = Some p" "p < c"
      and t: "t \<in> set (chain hp p)"
      by blast
    from "1.IH" [OF p t "1.prems"(2)] p show ?thesis
      by (simp add: chain.simps [of hp c])
  qed
qed

lemma calls_reaching_descendants:
  assumes "\<forall>(k', c) \<in> set cs. t \<in> set (chain hp c)" and "b \<in> set (chain hp t)"
  shows "calls_reaching hp k b cs = length (filter (\<lambda>(k', c). k' = k) cs)"
proof -
  have "filter (\<lambda>(k', c). k' = k \<and> b \<in> set (chain hp c)) cs = filter (\<lambda>(k', c). k' = k) cs"
    using assms by (intro filter_cong) (auto intro: chain_trans)
  then show ?thesis by (simp add: calls_reaching_def)
qed

text \<open>
  C2. In a heap where every parent was constructed before its children, any sequence of
  calls of \<^verbatim>\<open>addInteraction()\<close> and \<^verbatim>\<open>addError()\<close> on tasks of the heap returns, and
  it changes nothing but the counters: the effort of every task grows by the number of
  \<^verbatim>\<open>addInteraction()\<close> calls made on the task itself or on one of its descendants, its
  errors by the number of such \<^verbatim>\<open>addError()\<close> calls. The status of the task plays no
  part. (When every call is made on a task \<open>t\<close> or a descendant of \<open>t\<close>, this number is
  the number of all calls of the kind for \<open>t\<close> and for each ancestor of \<open>t\<close>:
  \<open>calls_reaching_descendants\<close>.)
\<close>

theorem counters_propagate:
  "heap_ok (heap w) \<and> (\<forall>(k, c) \<in> set cs. c < length (heap w)) \<longrightarrow>
   (\<exists>w'. count_calls cs w = Some w' \<and> w' = w\<lparr>heap := heap w'\<rparr> \<and>
         length (heap w') = length (heap w) \<and>
         (\<forall>b < length (heap w).
            heap w' ! b =
              (heap w ! b)
                \<lparr>effort := effort (heap w ! b) + calls_reaching (heap w) Interaction b cs,
                 errors := errors (heap w ! b) + calls_reaching (heap w) Error b cs\<rparr>))"
proof (induction cs arbitrary: w)
  case Nil
  show ?case by (simp add: calls_reaching_def)
next
  case (Cons x cs)
  obtain k a where x: "x = (k, a)" by (cases x)
  show ?case
  proof (intro impI)
    assume h: "heap_ok (heap w) \<and> (\<forall>(k, c) \<in> set (x # cs). c < length (heap w))"
    then have ok: "heap_ok (heap w)" and a: "a < length (heap w)"
      and rest: "\<forall>(k, c) \<in> set cs. c < length (heap w)"
      by (simp_all add: x)
    from count_call_effect [OF ok a, of k] obtain w1 where
      r1: "count_call k a w = Some w1" and fr1: "w1 = w\<lparr>heap := heap w1\<rparr>"
      and len1: "length (heap w1) = length (heap w)"
      and pt1: "\<forall>b < length (heap w).
           heap w1 ! b =
             (heap w ! b)
               \<lparr>effort := effort (heap w ! b) + calls_reaching (heap w) Interaction b [(k, a)],
                errors := errors (heap w ! b) + calls_reaching (heap w) Error b [(k, a)]\<rparr>"
      by blast
    have parents: "parentTask (heap w1 ! b) = parentTask (heap w ! b)" if "b < length (heap w)" for b
      using pt1 that by simp
    have ok1: "heap_ok (heap w1)"
    proof (rule heap_okI)
      fix b q assume "b < length (heap w1)" "parentTask (heap w1 ! b) = Some q"
      then show "q < b" using heap_okD [OF ok, of b q] parents [of b] len1 by simp
    qed
    have chains: "chain (heap w1) c = chain (heap w) c" if "c < length (heap w)" for c
      using that by (intro chain_cong parents) simp
    have reach: "calls_reaching (heap w1) k' b cs = calls_reaching (heap w) k' b cs" for k' b
      using chains rest by (rule calls_reaching_cong)
    from Cons.IH [of w1] ok1 rest len1 obtain w' where
      r: "count_calls cs w1 = Some w'" and fr: "w' = w1\<lparr>heap := heap w'\<rparr>"
      and len: "length (heap w') = length (heap w1)"
      and pt: "\<forall>b < length (heap w1).
            heap w' ! b =
              (heap w1 ! b)
                \<lparr>effort := effort (heap w1 ! b) + calls_reaching (heap w1) Interaction b cs,
                 errors := errors (heap w1 ! b) + calls_reaching (heap w1) Error b cs\<rparr>"
      by auto
    have "count_calls (x # cs) w = Some w'" using r1 r by (simp add: x)
    moreover have "w' = w\<lparr>heap := heap w'\<rparr>" by (subst fr, subst fr1) simp
    moreover have "length (heap w') = length (heap w)" using len len1 by simp
    moreover have "\<forall>b < length (heap w).
            heap w' ! b =
              (heap w ! b)
                \<lparr>effort := effort (heap w ! b) + calls_reaching (heap w) Interaction b (x # cs),
                 errors := errors (heap w ! b) + calls_reaching (heap w) Error b (x # cs)\<rparr>"
    proof (intro allI impI)
      fix b assume b: "b < length (heap w)"
      show "heap w' ! b =
              (heap w ! b)
                \<lparr>effort := effort (heap w ! b) + calls_reaching (heap w) Interaction b (x # cs),
                 errors := errors (heap w ! b) + calls_reaching (heap w) Error b (x # cs)\<rparr>"
        using pt pt1 b len1
        by (simp add: reach calls_reaching_Cons [of _ _ _ "(k, a)" cs] x add.assoc)
    qed
    ultimately show "\<exists>w'. count_calls (x # cs) w = Some w' \<and> w' = w\<lparr>heap := heap w'\<rparr> \<and>
         length (heap w') = length (heap w) \<and>
         (\<forall>b < length (heap w).
            heap w' ! b =
              (heap w ! b)
                \<lparr>effort := effort (heap w ! b) + calls_reaching (heap w) Interaction b (x # cs),
                 errors := errors (heap w ! b) + calls_reaching (heap w) Error b (x # cs)\<rparr>)"
      by blast
  qed
qed


lemma heap_world3:
  "heap world3 =
     [\<lparr>name = ''signup'', status = COMPLETED, effort = 0, errors = 0, start = 1000,
       end_ts = Some 2500, trackOnGoogleAnalytics = False, trackOnIntercom = False,
       trackOnSegment = True, parentTask = None\<rparr>,
      \<lparr>name = ''signup.step1'', status = IN_PROGRESS, effort = 0, errors = 0, start = 1500,
       end_ts = None, trackOnGoogleAnalytics = False, trackOnIntercom = False,
       trackOnSegment = True, parentTask = Some 0\<rparr>,
      \<lparr>name = ''signup.step1.field'', status = IN_PROGRESS, effort = 0, errors = 0,
       start = 2000, end_ts = None, trackOnGoogleAnalytics = False, trackOnIntercom = False,
       trackOnSegment = True, parentTask = Some 1\<rparr>]"
  by (simp add: world3_def world0_def HuhaTask_new_def Object_assign_def DEFAULTS_initial_def
      getTime_def complete_def finish_def track_emit emit_def)

theorem counters_propagate_witness:
  "heap_ok (heap world3) \<and> list_all (\<lambda>(k, c). c < length (heap world3)) calls3 \<and>
   status (heap world3 ! 0) = COMPLETED \<and>
   (\<exists>w'. count_calls calls3 world3 = Some w' \<and>
      effort (heap w' ! 0) = 2 \<and> effort (heap w' ! 1) = 2 \<and> effort (heap w' ! 2) = 1 \<and>
      errors (heap w' ! 0) = 1 \<and> errors (heap w' ! 1) = 1 \<and> errors (heap w' ! 2) = 1 \<and>
      status (heap w' ! 0) = COMPLETED)"
proof -
  have a: "heap_ok (heap world3) \<and> (\<forall>(k, c) \<in> set calls3. c < length (heap world3))"
    by (simp add: heap_world3 heap_ok_def calls3_def upt_rec)
  have c: "chain (heap world3) 2 = [2, 1, 0]" "chain (heap world3) (Suc 0) = [1, 0]"
    by (simp_all add: heap_world3 chain.simps)
  have r: "calls_reaching (heap world3) Interaction 0 calls3 = 2"
    "calls_reaching (heap world3) Interaction 1 calls3 = 2"
    "calls_reaching (heap world3) Interaction 2 calls3 = 1"
    "calls_reaching (heap world3) Error 0 calls3 = 1"
    "calls_reaching (heap world3) Error 1 calls3 = 1"
    "calls_reaching (heap world3) Error 2 calls3 = 1"
    by (simp_all add: calls_reaching_def calls3_def c)
  from counters_propagate [of world3 calls3] a obtain w' where
    w': "count_calls calls3 world3 = Some w'"
    and pt: "\<forall>b < length (heap world3).
            heap w' ! b =
              (heap world3 ! b)
                \<lparr>effort := effort (heap world3 ! b) + calls_reaching (heap world3) Interaction b calls3,
                 errors := errors (heap world3 ! b) + calls_reaching (heap world3) Error b calls3\<rparr>"
    by blast
  have l: "length (heap world3) = 3" by (simp add: heap_world3)
  have "heap w' ! 0 = (heap world3 ! 0)\<lparr>effort := 2, errors := 1\<rparr>"
    "heap w' ! 1 = (heap world3 ! 1)\<lparr>effort := 2, errors := 1\<rparr>"
    "heap w' ! 2 = (heap world3 ! 2)\<lparr>effort := 1, errors := 1\<rparr>"
    using pt r by (simp_all add: l) (simp_all add: heap_world3)
  then show ?thesis using a w' by (simp add: heap_world3 list_all_iff)
qed



subsection \<open>Abandoning the tasks in progress\<close>

lemma sink_out_cong:
  "heap w' ! a = heap w ! a \<Longrightarrow> has_gtag w' = has_gtag w \<Longrightarrow> has_ga w' = has_ga w \<Longrightarrow>
   sink_out sendToGoogleAnalytics a w' = sink_out sendToGoogleAnalytics a w"
  "heap w' ! a = heap w ! a \<Longrightarrow> has_Intercom w' = has_Intercom w \<Longrightarrow>
   sink_out sendToIntercom a w' = sink_out sendToIntercom a w"
  "heap w' ! a = heap w ! a \<Longrightarrow> has_analytics w' = has_analytics w \<Longrightarrow>
   sink_out sendToSegment a w' = sink_out sendToSegment a w"
  by (simp_all add: sink_out_def sendToGoogleAnalytics_def sendToIntercom_def
      sendToSegment_def emit_def Let_def)

lemma sink_out_track:
  "sink_out track a w =
     (if trackOnGoogleAnalytics (heap w ! a) then sink_out sendToGoogleAnalytics a w else [])
     @ (if trackOnIntercom (heap w ! a) then sink_out sendToIntercom a w else [])
     @ (if trackOnSegment (heap w ! a) then sink_out sendToSegment a w else [])"
  by (simp add: sink_out_def [of track] calls_track)

lemma sink_out_track_cong:
  assumes "heap w' ! a = heap w ! a" and "has_gtag w' = has_gtag w" and "has_ga w' = has_ga w"
    and "has_Intercom w' = has_Intercom w" and "has_analytics w' = has_analytics w"
  shows "sink_out track a w' = sink_out track a w"
  using assms by (simp add: sink_out_track sink_out_cong [of w' a w])

lemma track_sink_out: "track a w = w\<lparr>calls := calls w @ sink_out track a w\<rparr>"
  by (subst track_frame) (simp add: calls_track sink_out_track)

lemma same_env_refl [simp]: "same_env w w"
  by (simp add: same_env_def)

lemma same_env_trans: "same_env w w1 \<Longrightarrow> same_env w1 w2 \<Longrightarrow> same_env w w2"
  by (simp add: same_env_def)

lemma same_env_world:
  "same_env w w' \<Longrightarrow> w' = w\<lparr>ticks := ticks w', heap := heap w', calls := calls w'\<rparr>"
  by (cases w, cases w') (simp add: same_env_def)

lemma abandon_in_progress:
  assumes "a < length (heap w)" and "status (heap w ! a) = IN_PROGRESS"
  shows "abandon a w =
     w\<lparr>ticks := Suc (ticks w),
       heap := (heap w)[a := (heap w ! a)\<lparr>end_ts := Some (clock w (ticks w)), status := ABANDONED\<rparr>],
       calls := calls w @ sink_out track a (transition ABANDONED a w)\<rparr>"
proof -
  have "abandon a w = track a (transition ABANDONED a w)"
    using assms by (simp add: abandon_def finish_in_progress)
  then show ?thesis
    by (simp add: track_sink_out [of a "transition ABANDONED a w"]) (simp add: transition_def)
qed

lemma fold_abandon:
  assumes "distinct as" and "\<forall>a \<in> set as. a < length (heap w) \<and> status (heap w ! a) = IN_PROGRESS"
  shows "same_env w (fold abandon as w) \<and>
         ticks (fold abandon as w) = ticks w + length as \<and>
         calls (fold abandon as w) =
           calls w @ concat (map (\<lambda>a. sink_out track a (fold abandon as w)) as) \<and>
         length (heap (fold abandon as w)) = length (heap w) \<and>
         (\<forall>b. b \<notin> set as \<longrightarrow> heap (fold abandon as w) ! b = heap w ! b) \<and>
         (\<forall>i < length as. heap (fold abandon as w) ! (as ! i) =
            (heap w ! (as ! i))\<lparr>end_ts := Some (clock w (ticks w + i)), status := ABANDONED\<rparr>)"
  using assms
proof (induction as arbitrary: w)
  case Nil
  show ?case by simp
next
  case (Cons a as)
  let ?w1 = "abandon a w"
  let ?w' = "fold abandon as ?w1"
  have a: "a < length (heap w)" "status (heap w ! a) = IN_PROGRESS" "a \<notin> set as" "distinct as"
    using Cons.prems by simp_all
  note w1 = abandon_in_progress [OF a(1) a(2)]
  have h1: "heap ?w1 = (heap w)[a := (heap w ! a)\<lparr>end_ts := Some (clock w (ticks w)), status := ABANDONED\<rparr>]"
    by (simp add: w1)
  have e1: "ticks ?w1 = Suc (ticks w)" "clock ?w1 = clock w"
    "calls ?w1 = calls w @ sink_out track a (transition ABANDONED a w)"
    by (simp_all add: w1)
  have env1: "same_env w ?w1" by (simp add: w1 same_env_def)
  have pre: "\<forall>b \<in> set as. b < length (heap ?w1) \<and> status (heap ?w1 ! b) = IN_PROGRESS"
    using Cons.prems a(3) by (auto simp add: h1 nth_list_update)
  note ih = Cons.IH [OF a(4) pre]
  have env: "same_env ?w1 ?w'" using ih by blast
  have tk: "ticks ?w' = ticks ?w1 + length as" using ih by blast
  have cl: "calls ?w' = calls ?w1 @ concat (map (\<lambda>a. sink_out track a ?w') as)" using ih by blast
  have len: "length (heap ?w') = length (heap ?w1)" using ih by blast
  have others: "\<forall>b. b \<notin> set as \<longrightarrow> heap ?w' ! b = heap ?w1 ! b" using ih by blast
  have these: "\<forall>i < length as. heap ?w' ! (as ! i) =
            (heap ?w1 ! (as ! i))\<lparr>end_ts := Some (clock ?w1 (ticks ?w1 + i)), status := ABANDONED\<rparr>"
    using ih by blast
  have at_a: "heap ?w' ! a = heap (transition ABANDONED a w) ! a"
    using others a(3) by (simp add: h1 transition_def)
  have "same_env (transition ABANDONED a w) ?w'"
    using same_env_trans [OF env1 env] by (simp add: same_env_def transition_def)
  then have disp: "sink_out track a ?w' = sink_out track a (transition ABANDONED a w)"
    using at_a by (intro sink_out_track_cong) (simp_all add: same_env_def)
  have c0: "same_env w (fold abandon (a # as) w)"
    using same_env_trans [OF env1 env] by simp
  have c1: "ticks (fold abandon (a # as) w) = ticks w + length (a # as)"
    using tk by (simp add: e1)
  have c1': "calls (fold abandon (a # as) w) =
      calls w @ concat (map (\<lambda>b. sink_out track b (fold abandon (a # as) w)) (a # as))"
    using cl by (simp add: e1 disp)
  have c2: "length (heap (fold abandon (a # as) w)) = length (heap w)"
    using len by (simp add: h1)
  have c3: "\<forall>b. b \<notin> set (a # as) \<longrightarrow> heap (fold abandon (a # as) w) ! b = heap w ! b"
    using others by (simp add: h1)
  have c4: "\<forall>i < length (a # as). heap (fold abandon (a # as) w) ! ((a # as) ! i) =
            (heap w ! ((a # as) ! i))\<lparr>end_ts := Some (clock w (ticks w + i)), status := ABANDONED\<rparr>"
  proof (intro allI impI)
    fix i assume i: "i < length (a # as)"
    show "heap (fold abandon (a # as) w) ! ((a # as) ! i) =
            (heap w ! ((a # as) ! i))\<lparr>end_ts := Some (clock w (ticks w + i)), status := ABANDONED\<rparr>"
    proof (cases i)
      case 0
      then show ?thesis using at_a a(1) by (simp add: transition_def)
    next
      case (Suc j)
      then have j: "j < length as" using i by simp
      then have "as ! j \<noteq> a" using a(3) by (metis nth_mem)
      then show ?thesis using these j Suc by (simp add: e1 h1)
    qed
  qed
  from c0 c1 c1' c2 c3 c4 show ?case by blast
qed


lemma registry_okD: "registry_ok h w \<Longrightarrow> a \<in> set (tasks h) \<Longrightarrow> a < length (heap w)"
  by (simp add: registry_ok_def list_all_iff)

lemma abandonInProgressTasks_fold:
  "abandonInProgressTasks h w = fold abandon (pending h w) w"
  by (simp add: abandonInProgressTasks_def pending_def)

text \<open>
  C6. In a registry whose tasks are distinct objects of the heap,
  \<open>abandonInProgressTasks\<close> gives every task of the registry that is in progress the
  status \<^verbatim>\<open>ABANDONED\<close> and the end time read for it, and leaves every other task as it
  is, those already terminal among them. The calls it makes on the sinks are one run of
  \<^verbatim>\<open>track()\<close> for each task that was in progress, in the order of the registry.
  Calling it again changes nothing.
\<close>

theorem abandonInProgressTasks_once:
  "registry_ok h w \<longrightarrow>
     same_env w (abandonInProgressTasks h w) \<and>
     length (heap (abandonInProgressTasks h w)) = length (heap w) \<and>
     (\<forall>i < length (pending h w).
        heap (abandonInProgressTasks h w) ! (pending h w ! i) =
          (heap w ! (pending h w ! i))
            \<lparr>end_ts := Some (clock w (ticks w + i)), status := ABANDONED\<rparr>) \<and>
     (\<forall>b. b \<notin> set (pending h w) \<longrightarrow> heap (abandonInProgressTasks h w) ! b = heap w ! b) \<and>
     calls (abandonInProgressTasks h w) =
       calls w @ concat (map (\<lambda>a. sink_out track a (abandonInProgressTasks h w)) (pending h w)) \<and>
     abandonInProgressTasks h (abandonInProgressTasks h w) = abandonInProgressTasks h w"
proof
  assume ok: "registry_ok h w"
  let ?w' = "abandonInProgressTasks h w"
  have d: "distinct (pending h w)"
    using ok by (simp add: registry_ok_def pending_def)
  have p: "\<forall>a \<in> set (pending h w). a < length (heap w) \<and> status (heap w ! a) = IN_PROGRESS"
    using registry_okD [OF ok] by (simp add: pending_def)
  note f = fold_abandon [OF d p, folded abandonInProgressTasks_fold]
  have these: "\<forall>i < length (pending h w).
        heap ?w' ! (pending h w ! i) =
          (heap w ! (pending h w ! i))\<lparr>end_ts := Some (clock w (ticks w + i)), status := ABANDONED\<rparr>"
    using f by blast
  have others: "\<forall>b. b \<notin> set (pending h w) \<longrightarrow> heap ?w' ! b = heap w ! b"
    using f by blast
  have "status (heap ?w' ! a) \<noteq> IN_PROGRESS" if a: "a \<in> set (tasks h)" for a
  proof (cases "a \<in> set (pending h w)")
    case True
    then obtain i where "i < length (pending h w)" "pending h w ! i = a"
      by (auto simp add: in_set_conv_nth)
    with these have "status (heap ?w' ! a) = ABANDONED" by auto
    then show ?thesis by simp
  next
    case False
    with a have "status (heap w ! a) \<noteq> IN_PROGRESS" by (simp add: pending_def)
    with False others show ?thesis by simp
  qed
  then have "pending h ?w' = []" by (simp add: pending_def)
  then have "abandonInProgressTasks h ?w' = ?w'"
    by (simp add: abandonInProgressTasks_fold)
  with f show "same_env w ?w' \<and>
     length (heap ?w') = length (heap w) \<and>
     (\<forall>i < length (pending h w).
        heap ?w' ! (pending h w ! i) =
          (heap w ! (pending h w ! i))
            \<lparr>end_ts := Some (clock w (ticks w + i)), status := ABANDONED\<rparr>) \<and>
     (\<forall>b. b \<notin> set (pending h w) \<longrightarrow> heap ?w' ! b = heap w ! b) \<and>
     calls ?w' = calls w @ concat (map (\<lambda>a. sink_out track a ?w') (pending h w)) \<and>
     abandonInProgressTasks h ?w' = ?w'"
    by blast
qed

lemmas registry_eval =
  registry0_def Huha_new_def createTask_def getTask_def no_options_def HuhaTask_new_def
  Object_assign_def pick_def DEFAULTS_initial_def getTime_def world0_def

lemma registry3_eq:
  "registry3 = \<lparr>tasks = [0, 1, 2], events = [], h_trackOnGoogleAnalytics = False,
                 h_trackOnIntercom = False, h_trackOnSegment = True\<rparr>"
  by (simp add: registry3_def registry_eval)

lemma world4_eq:
  "world4 = world0
     \<lparr>ticks := 4,
      heap := [\<lparr>name = ''login'', status = IN_PROGRESS, effort = 0, errors = 0, start = 1000,
                end_ts = None, trackOnGoogleAnalytics = False, trackOnIntercom = False,
                trackOnSegment = True, parentTask = None\<rparr>,
               \<lparr>name = ''search'', status = COMPLETED, effort = 0, errors = 0, start = 1500,
                end_ts = Some 2500, trackOnGoogleAnalytics = False, trackOnIntercom = False,
                trackOnSegment = True, parentTask = None\<rparr>,
               \<lparr>name = ''checkout'', status = IN_PROGRESS, effort = 0, errors = 0, start = 2000,
                end_ts = None, trackOnGoogleAnalytics = False, trackOnIntercom = False,
                trackOnSegment = True, parentTask = None\<rparr>],
      calls := [Analytics_track ''search''
                  [(''category'', JStr ''search''), (''action'', JStr ''Completed''),
                   (''label'', JStr ''Task''), (''value'', JNum 1), (''errors'', JNum 0),
                   (''effort'', JNum 0), (''time'', JNum 1000), (''result'', JStr ''Completed''),
                   (''started'', JNum 1500)]]\<rparr>"
  by (simp add: world4_def registry_eval complete_def finish_def track_def sendToSegment_def
      emit_def time_def)


lemma world4_swept:
  "abandonInProgressTasks registry3 world4 = world4
     \<lparr>ticks := 6,
      heap := [\<lparr>name = ''login'', status = ABANDONED, effort = 0, errors = 0, start = 1000,
                end_ts = Some 3000, trackOnGoogleAnalytics = False, trackOnIntercom = False,
                trackOnSegment = True, parentTask = None\<rparr>,
               \<lparr>name = ''search'', status = COMPLETED, effort = 0, errors = 0, start = 1500,
                end_ts = Some 2500, trackOnGoogleAnalytics = False, trackOnIntercom = False,
                trackOnSegment = True, parentTask = None\<rparr>,
               \<lparr>name = ''checkout'', status = ABANDONED, effort = 0, errors = 0, start = 2000,
                end_ts = Some 3500, trackOnGoogleAnalytics = False, trackOnIntercom = False,
                trackOnSegment = True, parentTask = None\<rparr>],
      calls := calls world4 @
               [Analytics_track ''login''
                  [(''category'', JStr ''login''), (''action'', JStr ''Abandoned''),
                   (''label'', JStr ''Task''), (''value'', JNum 1), (''errors'', JNum 0),
                   (''effort'', JNum 0), (''time'', JNum 2000), (''result'', JStr ''Abandoned''),
                   (''started'', JNum 1000)],
                Analytics_track ''checkout''
                  [(''category'', JStr ''checkout''), (''action'', JStr ''Abandoned''),
                   (''label'', JStr ''Task''), (''value'', JNum 1), (''errors'', JNum 0),
                   (''effort'', JNum 0), (''time'', JNum 1500), (''result'', JStr ''Abandoned''),
                   (''started'', JNum 2000)]]\<rparr>"
  by (simp add: abandonInProgressTasks_def registry3_eq world4_eq world0_def abandon_def
      finish_def getTime_def track_def sendToSegment_def emit_def time_def)

theorem abandonInProgressTasks_once_witness:
  "registry_ok registry3 world4 \<and>
   map status (heap world4) = [IN_PROGRESS, COMPLETED, IN_PROGRESS] \<and>
   map status (heap (abandonInProgressTasks registry3 world4)) = [ABANDONED, COMPLETED, ABANDONED] \<and>
   heap (abandonInProgressTasks registry3 world4) ! 1 = heap world4 ! 1 \<and>
   length (calls (abandonInProgressTasks registry3 world4)) = length (calls world4) + 2 \<and>
   abandonInProgressTasks registry3 (abandonInProgressTasks registry3 world4)
     = abandonInProgressTasks registry3 world4"
proof -
  have a: "registry_ok registry3 world4"
    by (simp add: registry_ok_def registry3_eq world4_eq)
  have b: "map status (heap world4) = [IN_PROGRESS, COMPLETED, IN_PROGRESS]"
    by (simp add: world4_eq)
  have c: "map status (heap (abandonInProgressTasks registry3 world4))
      = [ABANDONED, COMPLETED, ABANDONED]"
    "heap (abandonInProgressTasks registry3 world4) ! 1 = heap world4 ! 1"
    "length (calls (abandonInProgressTasks registry3 world4)) = length (calls world4) + 2"
    by (simp_all add: world4_swept) (simp add: world4_eq)
  show ?thesis
    using a b c abandonInProgressTasks_once [of registry3 world4] by blast
qed



subsection \<open>One task in progress for each name\<close>

lemma settles_refl [simp]: "settles w w"
  by (simp add: settles_def)

lemma settles_trans: "settles w w1 \<Longrightarrow> settles w1 w2 \<Longrightarrow> settles w w2"
  by (simp add: settles_def)

lemma settles_finish: "settles w (finish st a w)"
proof (cases "status (heap w ! a) = IN_PROGRESS")
  case True
  show ?thesis
  proof (cases "a < length (heap w)")
    case True
    then show ?thesis
      by (simp add: finish_def getTime_def Let_def settles_def nth_list_update)
  next
    case False
    then show ?thesis
      by (simp add: finish_def getTime_def Let_def settles_def)
  qed
next
  case False
  then show ?thesis by (simp add: finish_terminal)
qed

lemma same_env_finish: "same_env w (finish st a w)"
  by (simp add: finish_def getTime_def Let_def track_emit emit_def same_env_def)

lemma settles_fold_abandon: "settles w (fold abandon as w)"
proof (induction as arbitrary: w)
  case Nil
  show ?case by simp
next
  case (Cons a as)
  have "settles w (abandon a w)" by (simp add: abandon_def settles_finish)
  from settles_trans [OF this Cons.IH] show ?case by simp
qed

lemma same_env_fold_abandon: "same_env w (fold abandon as w)"
proof (induction as arbitrary: w)
  case Nil
  show ?case by simp
next
  case (Cons a as)
  have "same_env w (abandon a w)" by (simp add: abandon_def same_env_finish)
  from same_env_trans [OF this Cons.IH] show ?case by simp
qed


lemma settles_in_progress:
  assumes "settles w w'" and "a < length (heap w)" and "status (heap w' ! a) = IN_PROGRESS"
  shows "status (heap w ! a) = IN_PROGRESS"
proof (rule ccontr)
  assume "status (heap w ! a) \<noteq> IN_PROGRESS"
  with assms(1,2) have "status (heap w' ! a) = status (heap w ! a)"
    by (simp add: settles_def)
  with assms(3) \<open>status (heap w ! a) \<noteq> IN_PROGRESS\<close> show False by simp
qed

lemma registry_inv_settles:
  assumes "registry_inv h w" and "settles w w'"
  shows "registry_inv h w'"
proof -
  have ok: "registry_ok h w" and d: "distinct (map (\<lambda>a. name (heap w ! a)) (pending h w))"
    using assms(1) by (simp_all add: registry_inv_def)
  have valid: "a < length (heap w)" if "a \<in> set (tasks h)" for a
    using registry_okD [OF ok that] .
  have ok': "registry_ok h w'"
    using ok assms(2) by (simp add: registry_ok_def settles_def)
  have names: "name (heap w' ! a) = name (heap w ! a)" if "a \<in> set (tasks h)" for a
    using valid [OF that] assms(2) by (simp add: settles_def)
  have p': "pending h w' = filter (\<lambda>a. status (heap w' ! a) = IN_PROGRESS) (pending h w)"
    unfolding pending_def filter_filter
    using settles_in_progress [OF assms(2)] valid by (intro filter_cong) auto
  have "map (\<lambda>a. name (heap w' ! a)) (pending h w') = map (\<lambda>a. name (heap w ! a)) (pending h w')"
    by (rule map_cong) (simp_all add: pending_def names)
  also have "\<dots> = map (\<lambda>a. name (heap w ! a))
      (filter (\<lambda>a. status (heap w' ! a) = IN_PROGRESS) (pending h w))"
    by (simp only: p')
  finally have "distinct (map (\<lambda>a. name (heap w' ! a)) (pending h w'))"
    using d by (simp add: distinct_map_filter)
  then show ?thesis
    by (simp add: registry_inv_def ok')
qed

lemma make_room_settles: "settles w (make_room nm h w)"
  by (simp add: make_room_def abandon_def settles_finish split: option.splits)

lemma make_room_same_env: "same_env w (make_room nm h w)"
  by (simp add: make_room_def abandon_def same_env_finish split: option.splits)

lemma make_room_free:
  assumes "registry_inv h w" and "a \<in> set (tasks h)"
  shows "\<not> (name (heap (make_room nm h w) ! a) = nm \<and>
            status (heap (make_room nm h w) ! a) = IN_PROGRESS)"
proof (cases "getTask nm h w")
  case None
  then have "make_room nm h w = w" by (simp add: make_room_def)
  moreover have "\<not> (name (heap w ! a) = nm \<and> status (heap w ! a) = IN_PROGRESS)"
    using None assms(2) by (auto simp add: getTask_def find_None_iff)
  ultimately show ?thesis by simp
next
  case (Some e)
  have ok: "registry_ok h w" and d: "distinct (map (\<lambda>a. name (heap w ! a)) (pending h w))"
    using assms(1) by (simp_all add: registry_inv_def)
  from Some have e: "e \<in> set (tasks h)" "name (heap w ! e) = nm" "status (heap w ! e) = IN_PROGRESS"
    by (auto simp add: getTask_def find_Some_iff)
  have el: "e < length (heap w)" using registry_okD [OF ok e(1)] .
  have m: "make_room nm h w = abandon e w" using Some by (simp add: make_room_def)
  note ab = abandon_in_progress [OF el e(3)]
  show ?thesis
  proof (cases "a = e")
    case True
    then show ?thesis using el by (simp add: m ab)
  next
    case False
    have same: "heap (abandon e w) ! a = heap w ! a" using False by (simp add: ab)
    show ?thesis
    proof
      assume "name (heap (make_room nm h w) ! a) = nm \<and>
            status (heap (make_room nm h w) ! a) = IN_PROGRESS"
      then have a: "name (heap w ! a) = nm" "status (heap w ! a) = IN_PROGRESS"
        by (simp_all add: m same)
      have "a \<in> set (pending h w)" "e \<in> set (pending h w)"
        using assms(2) e a by (simp_all add: pending_def)
      moreover have "inj_on (\<lambda>a. name (heap w ! a)) (set (pending h w))"
        using d by (simp add: distinct_map)
      ultimately have "a = e" using a(1) e(2) by (auto dest: inj_onD)
      with False show False by simp
    qed
  qed
qed

lemma createTask_unfold:
  "createTask nm parent h w =
     (length (heap w),
      h\<lparr>tasks := tasks h @ [length (heap w)]\<rparr>,
      (make_room nm h w)
        \<lparr>DEFAULTS := \<lparr>d_trackOnGoogleAnalytics = h_trackOnGoogleAnalytics h,
                       d_trackOnIntercom = h_trackOnIntercom h,
                       d_trackOnSegment = h_trackOnSegment h\<rparr>,
         ticks := Suc (ticks (make_room nm h w)),
         heap := heap (make_room nm h w) @
           [\<lparr>name = nm, status = IN_PROGRESS, effort = 0, errors = 0,
             start = clock w (ticks (make_room nm h w)), end_ts = None,
             trackOnGoogleAnalytics = h_trackOnGoogleAnalytics h,
             trackOnIntercom = h_trackOnIntercom h,
             trackOnSegment = h_trackOnSegment h,
             parentTask = parent\<rparr>]\<rparr>)"
proof -
  have l: "length (heap (make_room nm h w)) = length (heap w)"
    using make_room_settles [of w nm h] by (simp add: settles_def)
  have c: "clock (make_room nm h w) = clock w"
    using make_room_same_env [of w nm h] by (simp add: same_env_def)
  show ?thesis
    by (simp add: createTask_def HuhaTask_new_def getTime_def Object_assign_def pick_def
        Let_def make_room_def [symmetric] l c)
qed


lemma find_snoc:
  "\<forall>x \<in> set xs. \<not> P x \<Longrightarrow> P y \<Longrightarrow> find P (xs @ [y]) = Some y"
  by (induction xs) simp_all

lemma createTask_result:
  assumes "registry_inv h w"
  shows "registry_inv (fst (snd (createTask nm parent h w))) (snd (snd (createTask nm parent h w)))"
    and "getTask nm (fst (snd (createTask nm parent h w))) (snd (snd (createTask nm parent h w)))
           = Some (length (heap w))"
proof -
  let ?n = "length (heap w)"
  let ?w1 = "make_room nm h w"
  let ?t = "\<lparr>name = nm, status = IN_PROGRESS, effort = 0, errors = 0,
             start = clock w (ticks ?w1), end_ts = None,
             trackOnGoogleAnalytics = h_trackOnGoogleAnalytics h,
             trackOnIntercom = h_trackOnIntercom h,
             trackOnSegment = h_trackOnSegment h,
             parentTask = parent\<rparr>"
  let ?h' = "fst (snd (createTask nm parent h w))"
  let ?w2 = "snd (snd (createTask nm parent h w))"
  have h': "tasks ?h' = tasks h @ [?n]" by (simp add: createTask_unfold)
  have w2: "heap ?w2 = heap ?w1 @ [?t]" by (simp add: createTask_unfold)
  have l1: "length (heap ?w1) = ?n"
    using make_room_settles [of w nm h] by (simp add: settles_def)
  have inv1: "registry_inv h ?w1"
    using assms make_room_settles by (rule registry_inv_settles)
  then have ok1: "registry_ok h ?w1" and d1: "distinct (map (\<lambda>a. name (heap ?w1 ! a)) (pending h ?w1))"
    by (simp_all add: registry_inv_def)
  have valid: "a < ?n" if "a \<in> set (tasks h)" for a
    using registry_okD [OF ok1 that] l1 by simp
  have old: "heap ?w2 ! a = heap ?w1 ! a" if "a \<in> set (tasks h)" for a
    using valid [OF that] by (simp add: w2 nth_append l1)
  have new: "heap ?w2 ! ?n = ?t"
    by (simp add: w2 nth_append l1)
  have fresh: "?n \<notin> set (tasks h)" using valid by auto
  have free: "\<not> (name (heap ?w2 ! a) = nm \<and> status (heap ?w2 ! a) = IN_PROGRESS)"
    if "a \<in> set (tasks h)" for a
    using make_room_free [OF assms that, of nm] by (simp add: old [OF that])
  have valid': "\<forall>a \<in> set (tasks h). a < Suc ?n"
    using valid by (auto intro: less_SucI)
  have ok2: "registry_ok ?h' ?w2"
    using ok1 fresh valid' by (simp add: registry_ok_def h' w2 list_all_iff l1)
  have "filter (\<lambda>a. status (heap ?w2 ! a) = IN_PROGRESS) (tasks h)
      = filter (\<lambda>a. status (heap ?w1 ! a) = IN_PROGRESS) (tasks h)"
    by (rule filter_cong) (simp_all add: old)
  then have p2: "pending ?h' ?w2 = pending h ?w1 @ [?n]"
    by (simp add: pending_def h' new)
  have names: "map (\<lambda>a. name (heap ?w2 ! a)) (pending h ?w1)
      = map (\<lambda>a. name (heap ?w1 ! a)) (pending h ?w1)"
    by (rule map_cong) (simp_all add: pending_def old)
  have "map (\<lambda>a. name (heap ?w2 ! a)) (pending ?h' ?w2)
      = map (\<lambda>a. name (heap ?w1 ! a)) (pending h ?w1) @ [nm]"
    unfolding p2 using names by (simp add: new)
  moreover have "nm \<notin> set (map (\<lambda>a. name (heap ?w1 ! a)) (pending h ?w1))"
    using make_room_free [OF assms, of _ nm] by (auto simp add: pending_def)
  ultimately have "distinct (map (\<lambda>a. name (heap ?w2 ! a)) (pending ?h' ?w2))"
    using d1 by simp
  with ok2 show "registry_inv ?h' ?w2" by (simp add: registry_inv_def)
  have "find (\<lambda>a. name (heap ?w2 ! a) = nm \<and> status (heap ?w2 ! a) = IN_PROGRESS)
          (tasks h @ [?n]) = Some ?n"
    using free by (intro find_snoc) (simp_all add: new)
  then show "getTask nm ?h' ?w2 = Some ?n"
    by (simp add: getTask_def h')
qed

lemma only_counters_trans:
  "only_counters w w1 \<Longrightarrow> only_counters w1 w2 \<Longrightarrow> only_counters w w2"
  by (auto simp add: only_counters_def intro: settles_trans same_env_trans)

lemma only_counters_update:
  "only_counters w (w\<lparr>heap := (heap w)[a := (heap w ! a)\<lparr>effort := e\<rparr>]\<rparr>)"
  "only_counters w (w\<lparr>heap := (heap w)[a := (heap w ! a)\<lparr>errors := e\<rparr>]\<rparr>)"
  by (cases "a < length (heap w)";
      simp add: only_counters_def same_env_def settles_def nth_list_update)+

lemma addInteraction_Some:
  assumes "addInteraction a w = Some w'"
  shows "only_counters w w'"
proof (rule addInteraction.raw_induct [where P = "\<lambda>a w w'. only_counters w w'", OF _ assms])
  fix f :: "nat \<Rightarrow> world \<Rightarrow> world option" and a w w'
  assume IH: "\<And>a w w'. f a w = Some w' \<Longrightarrow> only_counters w w'"
    and body: "(let this = heap w ! a;
          w1 = w\<lparr>heap := (heap w)[a := this\<lparr>effort := effort this + 1\<rparr>]\<rparr>
      in case parentTask this of
           None \<Rightarrow> Some w1
         | Some p \<Rightarrow> f p w1) = Some w'"
  let ?w1 = "w\<lparr>heap := (heap w)[a := (heap w ! a)\<lparr>effort := effort (heap w ! a) + 1\<rparr>]\<rparr>"
  have s1: "only_counters w ?w1" by (rule only_counters_update)
  show "only_counters w w'"
  proof (cases "parentTask (heap w ! a)")
    case None
    with body have "w' = ?w1" by (simp add: Let_def)
    with s1 show ?thesis by simp
  next
    case (Some p)
    with body have "f p ?w1 = Some w'" by (simp add: Let_def)
    from only_counters_trans [OF s1 IH [OF this]] show ?thesis .
  qed
qed

lemma addError_Some:
  assumes "addError a w = Some w'"
  shows "only_counters w w'"
proof (rule addError.raw_induct [where P = "\<lambda>a w w'. only_counters w w'", OF _ assms])
  fix f :: "nat \<Rightarrow> world \<Rightarrow> world option" and a w w'
  assume IH: "\<And>a w w'. f a w = Some w' \<Longrightarrow> only_counters w w'"
    and body: "(let this = heap w ! a;
          w1 = w\<lparr>heap := (heap w)[a := this\<lparr>errors := errors this + 1\<rparr>]\<rparr>
      in case parentTask this of
           None \<Rightarrow> Some w1
         | Some p \<Rightarrow> f p w1) = Some w'"
  let ?w1 = "w\<lparr>heap := (heap w)[a := (heap w ! a)\<lparr>errors := errors (heap w ! a) + 1\<rparr>]\<rparr>"
  have s1: "only_counters w ?w1" by (rule only_counters_update)
  show "only_counters w w'"
  proof (cases "parentTask (heap w ! a)")
    case None
    with body have "w' = ?w1" by (simp add: Let_def)
    with s1 show ?thesis by simp
  next
    case (Some p)
    with body have "f p ?w1 = Some w'" by (simp add: Let_def)
    from only_counters_trans [OF s1 IH [OF this]] show ?thesis .
  qed
qed

lemma count_call_Some: "count_call k a w = Some w' \<Longrightarrow> only_counters w w'"
  by (cases k) (simp_all add: addInteraction_Some addError_Some)


lemma later_refl [simp]: "later w w"
  by (simp add: later_def)

lemma later_trans: "later w w1 \<Longrightarrow> later w1 w2 \<Longrightarrow> later w w2"
  by (simp add: later_def)

lemma same_env_later: "same_env w w' \<Longrightarrow> later w w'"
  by (simp add: same_env_def later_def)

lemma registry_inv_cong:
  "tasks h' = tasks h \<Longrightarrow> heap w' = heap w \<Longrightarrow> registry_inv h' w' = registry_inv h w"
  by (simp add: registry_inv_def registry_ok_def pending_def)

lemma createTask_later: "later w (snd (snd (createTask nm parent h w)))"
  using make_room_same_env [of w nm h]
  by (simp add: createTask_unfold later_def same_env_def)

lemma HuhaEvent_new_later:
  "later w (snd (HuhaEvent_new nm obj act sec val tsk grp opts w))"
  "heap (snd (HuhaEvent_new nm obj act sec val tsk grp opts w)) = heap w"
  by (simp_all add: HuhaEvent_new_def uuidv1_def later_def Let_def split: option.splits)

lemma HuhaEvent_track_later:
  "later w (HuhaEvent_track e w)" "heap (HuhaEvent_track e w) = heap w"
  by (simp_all add: HuhaEvent_track_emit emit_def later_def)

lemma createEvent_later:
  "later w (snd (snd (createEvent nm obj act sec val tsk grp h w)))"
  "heap (snd (snd (createEvent nm obj act sec val tsk grp h w))) = heap w"
  "tasks (fst (snd (createEvent nm obj act sec val tsk grp h w))) = tasks h"
proof -
  let ?opts = "Some \<lparr>o_trackOnGoogleAnalytics = Some (h_trackOnGoogleAnalytics h),
                      o_trackOnIntercom = None,
                      o_trackOnSegment = Some (h_trackOnSegment h)\<rparr>"
  let ?r = "HuhaEvent_new nm obj act sec val tsk grp ?opts w"
  have c: "createEvent nm obj act sec val tsk grp h w
      = (fst ?r, h\<lparr>events := events h @ [fst ?r]\<rparr>, HuhaEvent_track (fst ?r) (snd ?r))"
    by (simp add: createEvent_def Let_def split_beta)
  show "later w (snd (snd (createEvent nm obj act sec val tsk grp h w)))"
    unfolding c using later_trans [OF HuhaEvent_new_later(1) HuhaEvent_track_later(1)] by simp
  show "heap (snd (snd (createEvent nm obj act sec val tsk grp h w))) = heap w"
    unfolding c by (simp add: HuhaEvent_track_later(2) HuhaEvent_new_later(2))
  show "tasks (fst (snd (createEvent nm obj act sec val tsk grp h w))) = tasks h"
    unfolding c by simp
qed

lemma registerEvent_cases:
  assumes "registerEvent capturedEvent el h w = Some (h', w')"
  shows "(h' = h \<and> w' = w) \<or>
         (h', w') = snd (createTask (huhaTask el) None h w) \<or>
         (\<exists>st t. h' = h \<and> w' = finish st t w) \<or>
         (\<exists>k t. h' = h \<and> count_call k t w = Some w')"
proof (cases "Some capturedEvent = huhaTrigger el")
  case False
  with assms show ?thesis by (simp add: registerEvent_def)
next
  case trig: True
  show ?thesis
  proof (cases "huhaEvent el = Some ''start''")
    case True
    with trig assms show ?thesis by (simp add: registerEvent_def split_beta)
  next
    case nostart: False
    show ?thesis
    proof (cases "getTask (huhaTask el) h w")
      case None
      with trig nostart assms show ?thesis by (simp add: registerEvent_def)
    next
      case (Some t)
      consider (c) "huhaEvent el = Some ''complete''" | (a) "huhaEvent el = Some ''abandon''"
        | (i) "huhaEvent el = Some ''interaction''" | (e) "huhaEvent el = Some ''error''"
        | (n) "huhaEvent el \<noteq> Some ''complete''" "huhaEvent el \<noteq> Some ''abandon''"
              "huhaEvent el \<noteq> Some ''interaction''" "huhaEvent el \<noteq> Some ''error''"
        by blast
      then show ?thesis
      proof cases
        case c
        with trig Some assms have "h' = h \<and> w' = finish COMPLETED t w"
          by (simp add: registerEvent_def complete_def)
        then show ?thesis by blast
      next
        case a
        with trig Some assms have "h' = h \<and> w' = finish ABANDONED t w"
          by (simp add: registerEvent_def abandon_def)
        then show ?thesis by blast
      next
        case i
        with trig Some assms have "h' = h \<and> count_call Interaction t w = Some w'"
          by (auto simp add: registerEvent_def)
        then show ?thesis by blast
      next
        case e
        with trig Some assms have "h' = h \<and> count_call Error t w = Some w'"
          by (auto simp add: registerEvent_def)
        then show ?thesis by blast
      next
        case n
        with trig nostart Some assms show ?thesis by (simp add: registerEvent_def)
      qed
    qed
  qed
qed

lemma step_cases:
  assumes "step x (h, w) = Some (h', w')"
  shows "(tasks h' = tasks h \<and> heap w' = heap w \<and> later w w') \<or>
         (\<exists>nm parent. (h', w') = snd (createTask nm parent h w) \<and>
            (\<forall>p. parent = Some p \<longrightarrow> p < length (heap w))) \<or>
         (h' = h \<and> settles w w' \<and> same_env w w')"
proof (cases x)
  case (CreateTask nm parent)
  with assms have "(h', w') = snd (createTask nm parent h w)"
    and "\<forall>p. parent = Some p \<longrightarrow> p < length (heap w)"
    by (auto split: if_splits)
  then show ?thesis by blast
next
  case (CreateEvent nm obj act sec val tsk grp)
  with assms have "(h', w') = snd (createEvent nm obj act sec val tsk grp h w)" by simp
  then have "h' = fst (snd (createEvent nm obj act sec val tsk grp h w))"
    "w' = snd (snd (createEvent nm obj act sec val tsk grp h w))"
    by (simp_all add: prod_eq_iff)
  then show ?thesis by (simp add: createEvent_later)
next
  case (RegisterEvent capturedEvent el)
  with assms have "registerEvent capturedEvent el h w = Some (h', w')" by simp
  from registerEvent_cases [OF this] show ?thesis
  proof (elim disjE exE conjE)
    assume "h' = h" "w' = w"
    then show ?thesis by simp
  next
    assume "(h', w') = snd (createTask (huhaTask el) None h w)"
    then show ?thesis by blast
  next
    fix st t assume "h' = h" "w' = finish st t w"
    then show ?thesis by (simp add: settles_finish same_env_finish)
  next
    fix k t assume "h' = h" "count_call k t w = Some w'"
    with count_call_Some [of k t w w'] show ?thesis by (simp add: only_counters_def)
  qed
next
  case AbandonInProgressTasks
  with assms have "h' = h" "w' = abandonInProgressTasks h w" by auto
  then show ?thesis
    by (simp add: abandonInProgressTasks_def settles_fold_abandon same_env_fold_abandon)
next
  case (Count k a)
  with assms have "h' = h" "count_call k a w = Some w'" by (auto split: if_splits)
  with count_call_Some [of k a w w'] show ?thesis by (simp add: only_counters_def)
next
  case (End c a)
  with assms have "h' = h" "w' = finish (ending_status c) a w"
    by (simp_all add: end_call_finish split: if_splits)
  then show ?thesis
    by (simp add: settles_finish same_env_finish)
qed

lemma step_inv:
  assumes "step x (h, w) = Some (h', w')" and "registry_inv h w"
  shows "registry_inv h' w'"
  using step_cases [OF assms(1)]
proof (elim disjE exE conjE)
  assume "tasks h' = tasks h" "heap w' = heap w"
  from registry_inv_cong [OF this] show ?thesis using assms(2) by simp
next
  fix nm parent assume "(h', w') = snd (createTask nm parent h w)"
  then have "h' = fst (snd (createTask nm parent h w))" "w' = snd (snd (createTask nm parent h w))"
    by (simp_all add: prod_eq_iff)
  then show ?thesis using createTask_result(1) [OF assms(2)] by simp
next
  assume "h' = h" "settles w w'"
  then show ?thesis using registry_inv_settles [OF assms(2)] by simp
qed

lemma step_later:
  assumes "step x (h, w) = Some (h', w')"
  shows "later w w'"
  using step_cases [OF assms]
proof (elim disjE exE conjE)
  fix nm parent assume "(h', w') = snd (createTask nm parent h w)"
  then have "w' = snd (snd (createTask nm parent h w))" by (simp add: prod_eq_iff)
  then show ?thesis by (simp add: createTask_later)
qed (simp_all add: same_env_later)

lemma run_inv:
  "run xs (h, w) = Some (h', w') \<Longrightarrow> registry_inv h w \<Longrightarrow> registry_inv h' w'"
proof (induction xs arbitrary: h w)
  case Nil
  then show ?case by simp
next
  case (Cons x xs)
  from Cons.prems(1) obtain h1 w1 where s: "step x (h, w) = Some (h1, w1)"
    and r: "run xs (h1, w1) = Some (h', w')"
    by (auto split: option.splits)
  from Cons.IH [OF r step_inv [OF s Cons.prems(2)]] show ?case .
qed

lemma run_later: "run xs (h, w) = Some (h', w') \<Longrightarrow> later w w'"
proof (induction xs arbitrary: h w)
  case Nil
  then show ?case by simp
next
  case (Cons x xs)
  from Cons.prems(1) obtain h1 w1 where s: "step x (h, w) = Some (h1, w1)"
    and r: "run xs (h1, w1) = Some (h', w')"
    by (auto split: option.splits)
  from later_trans [OF step_later [OF s] Cons.IH [OF r]] show ?case .
qed

lemma Huha_new_inv: "registry_inv (fst (Huha_new opts w)) (snd (Huha_new opts w))"
  by (simp add: Huha_new_def Let_def registry_inv_def registry_ok_def pending_def)


lemma distinct_map_filter_le:
  "distinct (map f xs) \<Longrightarrow> length (filter (\<lambda>x. f x = y) xs) \<le> 1"
proof (induction xs)
  case Nil
  show ?case by simp
next
  case (Cons x xs)
  show ?case
  proof (cases "f x = y")
    case True
    from Cons.prems have "f x \<notin> f ` set xs" by simp
    then have "\<forall>z \<in> set xs. f z \<noteq> f x" by (metis imageI)
    with True have "\<forall>z \<in> set xs. f z \<noteq> y" by simp
    then have "filter (\<lambda>x. f x = y) xs = []" by (simp add: filter_empty_conv)
    with True show ?thesis by simp
  next
    case False
    with Cons show ?thesis by simp
  qed
qed

lemma registry_inv_at_most_one:
  assumes "registry_inv h w"
  shows "length (filter (\<lambda>a. name (heap w ! a) = nm \<and> status (heap w ! a) = IN_PROGRESS)
           (tasks h)) \<le> 1"
proof -
  have "filter (\<lambda>a. name (heap w ! a) = nm \<and> status (heap w ! a) = IN_PROGRESS) (tasks h)
      = filter (\<lambda>a. name (heap w ! a) = nm) (pending h w)"
    by (simp add: pending_def conj_commute)
  moreover have "distinct (map (\<lambda>a. name (heap w ! a)) (pending h w))"
    using assms by (simp add: registry_inv_def)
  ultimately show ?thesis
    using distinct_map_filter_le [of "\<lambda>a. name (heap w ! a)" "pending h w" nm] by simp
qed

lemma createTask_twice:
  assumes "registry_inv h w"
  shows "let (a1, h1, w1) = createTask nm p1 h w; (a2, h2, w2) = createTask nm p2 h1 w1 in
           a1 \<noteq> a2 \<and> status (heap w2 ! a1) = ABANDONED \<and> status (heap w2 ! a2) = IN_PROGRESS \<and>
           getTask nm h2 w2 = Some a2 \<and>
           end_ts (heap w2 ! a1) = Some (clock w (ticks w1)) \<and>
           start (heap w2 ! a2) = clock w (Suc (ticks w1))"
proof -
  let ?a1 = "length (heap w)"
  let ?h1 = "fst (snd (createTask nm p1 h w))"
  let ?w1 = "snd (snd (createTask nm p1 h w))"
  let ?a2 = "length (heap ?w1)"
  let ?h2 = "fst (snd (createTask nm p2 ?h1 ?w1))"
  let ?w2 = "snd (snd (createTask nm p2 ?h1 ?w1))"
  have r1: "fst (createTask nm p1 h w) = ?a1" by (simp add: createTask_unfold)
  have r2: "fst (createTask nm p2 ?h1 ?w1) = ?a2" by (subst createTask_unfold) simp
  have inv1: "registry_inv ?h1 ?w1" and g1: "getTask nm ?h1 ?w1 = Some ?a1"
    using createTask_result [OF assms] by simp_all
  have g2: "getTask nm ?h2 ?w2 = Some ?a2"
    using createTask_result(2) [OF inv1] by simp
  have l0: "length (heap (make_room nm h w)) = ?a1"
    using make_room_settles [of w nm h] by (simp add: settles_def)
  have c0: "clock (make_room nm h w) = clock w"
    using make_room_same_env [of w nm h] by (simp add: same_env_def)
  have l1: "?a2 = Suc ?a1" by (simp add: createTask_unfold l0)
  have c1: "clock ?w1 = clock w" by (simp add: createTask_unfold c0)
  have ip: "status (heap ?w1 ! ?a1) = IN_PROGRESS"
    using g1 by (auto simp add: getTask_def find_Some_iff)
  have a1: "?a1 < length (heap ?w1)" using l1 by simp
  have m: "make_room nm ?h1 ?w1 = abandon ?a1 ?w1"
    using g1 by (simp add: make_room_def)
  note ab = abandon_in_progress [OF a1 ip]
  have hp: "heap (make_room nm ?h1 ?w1)
      = (heap ?w1)[?a1 := (heap ?w1 ! ?a1)\<lparr>end_ts := Some (clock w (ticks ?w1)), status := ABANDONED\<rparr>]"
    unfolding m by (subst ab) (simp add: c1)
  have tk: "ticks (make_room nm ?h1 ?w1) = Suc (ticks ?w1)"
    unfolding m by (subst ab) simp
  have w2: "heap ?w2 = heap (make_room nm ?h1 ?w1) @
           [\<lparr>name = nm, status = IN_PROGRESS, effort = 0, errors = 0,
             start = clock ?w1 (ticks (make_room nm ?h1 ?w1)), end_ts = None,
             trackOnGoogleAnalytics = h_trackOnGoogleAnalytics ?h1,
             trackOnIntercom = h_trackOnIntercom ?h1,
             trackOnSegment = h_trackOnSegment ?h1,
             parentTask = p2\<rparr>]"
    by (subst createTask_unfold) simp
  have lm: "length (heap (make_room nm ?h1 ?w1)) = ?a2" by (simp add: hp)
  have at1: "heap ?w2 ! ?a1 =
      (heap ?w1 ! ?a1)\<lparr>end_ts := Some (clock w (ticks ?w1)), status := ABANDONED\<rparr>"
    using a1 by (simp add: w2 nth_append lm) (simp add: hp)
  have at2: "status (heap ?w2 ! ?a2) = IN_PROGRESS"
    "start (heap ?w2 ! ?a2) = clock w (Suc (ticks ?w1))"
    by (simp_all add: w2 nth_append lm tk c1)
  have "?a1 \<noteq> ?a2" using l1 by simp
  with at1 at2 g2 show ?thesis
    by (simp add: split_beta Let_def r1 r2)
qed

text \<open>
  C3. In every state that a registry reaches from its construction by the operations
  above, at most one of its tasks is in progress under any given name. Calling
  \<open>createTask\<close> twice with the same name there returns two different tasks; afterwards
  the first is \<^verbatim>\<open>ABANDONED\<close>, the second is in progress and is the task \<open>getTask\<close>
  finds for the name. The end of the first is the reading of the clock taken just before
  the reading that is the start of the second.
\<close>

theorem one_in_progress_per_name:
  "run ops (Huha_new opts w0) = Some (h, w) \<longrightarrow>
     length (filter (\<lambda>a. name (heap w ! a) = nm \<and> status (heap w ! a) = IN_PROGRESS) (tasks h)) \<le> 1 \<and>
     (let (a1, h1, w1) = createTask X p1 h w; (a2, h2, w2) = createTask X p2 h1 w1 in
        a1 \<noteq> a2 \<and> status (heap w2 ! a1) = ABANDONED \<and> status (heap w2 ! a2) = IN_PROGRESS \<and>
        getTask X h2 w2 = Some a2 \<and>
        end_ts (heap w2 ! a1) = Some (clock w (ticks w1)) \<and>
        start (heap w2 ! a2) = clock w (Suc (ticks w1)))"
proof
  assume r: "run ops (Huha_new opts w0) = Some (h, w)"
  have "run ops (fst (Huha_new opts w0), snd (Huha_new opts w0)) = Some (h, w)"
    using r by simp
  from run_inv [OF this Huha_new_inv] have inv: "registry_inv h w" .
  from registry_inv_at_most_one [OF inv] createTask_twice [OF inv]
  show "length (filter (\<lambda>a. name (heap w ! a) = nm \<and> status (heap w ! a) = IN_PROGRESS) (tasks h)) \<le> 1 \<and>
     (let (a1, h1, w1) = createTask X p1 h w; (a2, h2, w2) = createTask X p2 h1 w1 in
        a1 \<noteq> a2 \<and> status (heap w2 ! a1) = ABANDONED \<and> status (heap w2 ! a2) = IN_PROGRESS \<and>
        getTask X h2 w2 = Some a2 \<and>
        end_ts (heap w2 ! a1) = Some (clock w (ticks w1)) \<and>
        start (heap w2 ! a2) = clock w (Suc (ticks w1)))"
    by blast
qed


lemma run_ops_demo: "run ops_demo (Huha_new None world0) = Some (registry3, world4)"
  by (simp add: ops_demo_def registry3_eq world4_eq registry_eval complete_def finish_def
      track_def sendToSegment_def emit_def time_def)

theorem one_in_progress_per_name_witness:
  "run ops_demo (Huha_new None world0) = Some (registry3, world4) \<and>
   length (filter (\<lambda>a. name (heap world4 ! a) = ''login'' \<and> status (heap world4 ! a) = IN_PROGRESS)
             (tasks registry3)) \<le> 1 \<and>
   (let (a1, h1, w1) = createTask ''login'' None registry3 world4;
        (a2, h2, w2) = createTask ''login'' None h1 w1 in
      a1 \<noteq> a2 \<and> status (heap w2 ! a1) = ABANDONED \<and> status (heap w2 ! a2) = IN_PROGRESS \<and>
      getTask ''login'' h2 w2 = Some a2 \<and>
      end_ts (heap w2 ! a1) = Some (clock world4 (ticks w1)) \<and>
      start (heap w2 ! a2) = clock world4 (Suc (ticks w1)))"
  using run_ops_demo
    one_in_progress_per_name [of ops_demo None world0 registry3 world4 "''login''" "''login''"
      None None]
  by blast



subsection \<open>The group of an event\<close>

lemma HuhaEvent_new_kept:
  "g \<noteq> [] \<Longrightarrow> eventGroup (fst (HuhaEvent_new nm obj act sec val tsk (Some g) opts w)) = g"
  by (simp add: HuhaEvent_new_def Let_def)

lemma HuhaEvent_new_generated:
  assumes "no_eventGroup g"
  shows "eventGroup (fst (HuhaEvent_new nm obj act sec val tsk g opts w)) = uuid_source w (uuids w)"
    and "uuid_source (snd (HuhaEvent_new nm obj act sec val tsk g opts w)) = uuid_source w"
    and "uuids (snd (HuhaEvent_new nm obj act sec val tsk g opts w)) = Suc (uuids w)"
  using assms
  by (simp_all add: HuhaEvent_new_def uuidv1_def Let_def no_eventGroup_def split: option.splits)

text \<open>
  C8, as stated: an event constructed with a supplied group keeps the caller's value.
  For the empty string as the supplied group it does not: the constructor takes the
  generated token.
\<close>

theorem eventGroup_empty_counterexample:
  "eventGroup (fst (HuhaEvent_new ''search'' ''box'' ''type'' ''header'' ''shoes'' None (Some [])
                      None world0)) = ''g'' \<and>
   eventGroup (fst (HuhaEvent_new ''search'' ''box'' ''type'' ''header'' ''shoes'' None (Some [])
                      None world0)) \<noteq> []"
  by (simp add: HuhaEvent_new_def uuidv1_def Let_def world0_def)

text \<open>
  C8, amended. An event constructed with a non-empty group keeps it. An event constructed
  without a group, or with the empty string, gets the token \<^verbatim>\<open>uuidv1\<close> returns; with a
  generator of fresh tokens this token is non-empty and differs from the token of any
  such event constructed later, whatever operations of the registry come in between.
\<close>

theorem eventGroup_generated_or_kept:
  "(g \<noteq> [] \<longrightarrow> eventGroup (fst (HuhaEvent_new nm obj act sec val tsk (Some g) opts w)) = g) \<and>
   (fresh_tokens (uuid_source w) \<and> no_eventGroup g1 \<and> no_eventGroup g2 \<and>
    run ops (h, snd (HuhaEvent_new nm1 obj1 act1 sec1 val1 tsk1 g1 opts1 w)) = Some (h', w') \<longrightarrow>
      eventGroup (fst (HuhaEvent_new nm1 obj1 act1 sec1 val1 tsk1 g1 opts1 w)) \<noteq> [] \<and>
      eventGroup (fst (HuhaEvent_new nm2 obj2 act2 sec2 val2 tsk2 g2 opts2 w')) \<noteq> [] \<and>
      eventGroup (fst (HuhaEvent_new nm1 obj1 act1 sec1 val1 tsk1 g1 opts1 w))
        \<noteq> eventGroup (fst (HuhaEvent_new nm2 obj2 act2 sec2 val2 tsk2 g2 opts2 w')))"
proof (intro conjI impI)
  assume "g \<noteq> []"
  then show "eventGroup (fst (HuhaEvent_new nm obj act sec val tsk (Some g) opts w)) = g"
    by (rule HuhaEvent_new_kept)
next
  let ?e1 = "HuhaEvent_new nm1 obj1 act1 sec1 val1 tsk1 g1 opts1 w"
  let ?e2 = "HuhaEvent_new nm2 obj2 act2 sec2 val2 tsk2 g2 opts2 w'"
  assume a: "fresh_tokens (uuid_source w) \<and> no_eventGroup g1 \<and> no_eventGroup g2 \<and>
    run ops (h, snd ?e1) = Some (h', w')"
  then have f: "inj (uuid_source w)" "\<And>n. uuid_source w n \<noteq> []"
    and n1: "no_eventGroup g1" and n2: "no_eventGroup g2"
    and r: "run ops (h, snd ?e1) = Some (h', w')"
    by (simp_all add: fresh_tokens_def)
  note e1 = HuhaEvent_new_generated [OF n1, of nm1 obj1 act1 sec1 val1 tsk1 opts1 w]
  have l: "uuid_source w' = uuid_source w" "Suc (uuids w) \<le> uuids w'"
    using run_later [OF r] by (simp_all add: later_def e1)
  have g1: "eventGroup (fst ?e1) = uuid_source w (uuids w)" by (rule e1(1))
  have g2: "eventGroup (fst ?e2) = uuid_source w (uuids w')"
    using HuhaEvent_new_generated(1) [OF n2, of nm2 obj2 act2 sec2 val2 tsk2 opts2 w']
    by (simp add: l)
  show "eventGroup (fst ?e1) \<noteq> []" by (simp add: g1 f(2))
  show "eventGroup (fst ?e2) \<noteq> []" by (simp add: g2 f(2))
  have "uuids w \<noteq> uuids w'" using l(2) by simp
  then show "eventGroup (fst ?e1) \<noteq> eventGroup (fst ?e2)"
    using f(1) by (simp add: g1 g2 inj_eq)
qed

lemma fresh_tokens_world0: "fresh_tokens (uuid_source world0)"
proof -
  have "inj (\<lambda>n. CHR ''g'' # replicate n CHR ''x'')"
  proof (rule injI)
    fix m n :: nat
    assume "CHR ''g'' # replicate m CHR ''x'' = CHR ''g'' # replicate n CHR ''x''"
    then have "length (replicate m CHR ''x'') = length (replicate n CHR ''x'')" by simp
    then show "m = n" by simp
  qed
  then show ?thesis by (simp add: fresh_tokens_def world0_def)
qed

lemma run_one_event:
  "run one_event
     (registry0, snd (HuhaEvent_new ''open'' ''menu'' ''click'' ''header'' ''1'' None None None world0))
     = Some (registry5, world5)"
  by (simp add: one_event_def registry5_def world5_def registry0_def Huha_new_def createEvent_def
      HuhaEvent_new_def HuhaEvent_track_def HuhaEvent_sendToSegment_def emit_def uuidv1_def
      Object_assign_def pick_def no_options_def DEFAULTS_initial_def world0_def)

theorem eventGroup_generated_or_kept_witness:
  "''group-7'' \<noteq> [] \<and>
   eventGroup (fst (HuhaEvent_new ''search'' ''box'' ''type'' ''header'' ''shoes'' None
                      (Some ''group-7'') None world0)) = ''group-7'' \<and>
   fresh_tokens (uuid_source world0) \<and> no_eventGroup None \<and> no_eventGroup (Some []) \<and>
   run one_event
     (registry0, snd (HuhaEvent_new ''open'' ''menu'' ''click'' ''header'' ''1'' None None None world0))
     = Some (registry5, world5) \<and>
   eventGroup (fst (HuhaEvent_new ''open'' ''menu'' ''click'' ''header'' ''1'' None None None world0))
     \<noteq> [] \<and>
   eventGroup (fst (HuhaEvent_new ''close'' ''menu'' ''click'' ''header'' ''1'' None (Some []) None
                      world5)) \<noteq> [] \<and>
   eventGroup (fst (HuhaEvent_new ''open'' ''menu'' ''click'' ''header'' ''1'' None None None world0))
     \<noteq> eventGroup (fst (HuhaEvent_new ''close'' ''menu'' ''click'' ''header'' ''1'' None
                          (Some []) None world5))"
proof -
  have a: "''group-7'' \<noteq> []" by simp
  have b: "no_eventGroup None" "no_eventGroup (Some [])" by (simp_all add: no_eventGroup_def)
  show ?thesis
    using a b run_one_event fresh_tokens_world0
      eventGroup_generated_or_kept [where g = "''group-7''" and nm = "''search''"
        and obj = "''box''" and act = "''type''" and sec = "''header''" and val = "''shoes''"
        and tsk = None and opts = None and w = world0 and ?g1.0 = None and ?g2.0 = "Some []"
        and ops = one_event and h = registry0 and h' = registry5 and w' = world5
        and ?nm1.0 = "''open''" and ?obj1.0 = "''menu''" and ?act1.0 = "''click''"
        and ?sec1.0 = "''header''" and ?val1.0 = "''1''" and ?tsk1.0 = None and ?opts1.0 = None
        and ?nm2.0 = "''close''" and ?obj2.0 = "''menu''" and ?act2.0 = "''click''"
        and ?sec2.0 = "''header''" and ?val2.0 = "''1''" and ?tsk2.0 = None and ?opts2.0 = None]
    by blast
qed



subsection \<open>A task ends once\<close>

lemma terminal_kept_heap: "heap w' = heap w \<Longrightarrow> terminal_kept w w'"
  by (simp add: terminal_kept_def)

lemma terminal_kept_trans:
  "terminal_kept w w1 \<Longrightarrow> terminal_kept w1 w2 \<Longrightarrow> terminal_kept w w2"
  by (auto simp add: terminal_kept_def)

lemma settles_terminal_kept: "settles w w' \<Longrightarrow> terminal_kept w w'"
  by (simp add: settles_def terminal_kept_def)

lemma createTask_terminal_kept: "terminal_kept w (snd (snd (createTask nm parent h w)))"
proof -
  have l: "length (heap (make_room nm h w)) = length (heap w)"
    using make_room_settles [of w nm h] by (simp add: settles_def)
  have "terminal_kept (make_room nm h w) (snd (snd (createTask nm parent h w)))"
    by (simp add: createTask_unfold terminal_kept_def nth_append)
  with settles_terminal_kept [OF make_room_settles [of w nm h]] show ?thesis
    by (rule terminal_kept_trans)
qed

lemma step_terminal_kept:
  assumes "step x (h, w) = Some (h', w')"
  shows "terminal_kept w w'"
  using step_cases [OF assms]
proof (elim disjE exE conjE)
  assume "heap w' = heap w"
  then show ?thesis by (rule terminal_kept_heap)
next
  fix nm parent assume "(h', w') = snd (createTask nm parent h w)"
  then have "w' = snd (snd (createTask nm parent h w))" by (simp add: prod_eq_iff)
  then show ?thesis by (simp add: createTask_terminal_kept)
next
  assume "settles w w'"
  then show ?thesis by (rule settles_terminal_kept)
qed

lemma run_terminal_kept: "run xs (h, w) = Some (h', w') \<Longrightarrow> terminal_kept w w'"
proof (induction xs arbitrary: h w)
  case Nil
  then show ?case by (simp add: terminal_kept_def)
next
  case (Cons x xs)
  from Cons.prems(1) obtain h1 w1 where s: "step x (h, w) = Some (h1, w1)"
    and r: "run xs (h1, w1) = Some (h', w')"
    by (auto split: option.splits)
  from terminal_kept_trans [OF step_terminal_kept [OF s] Cons.IH [OF r]] show ?case .
qed

text \<open>
  C1. Once the status of a task is not \<^verbatim>\<open>IN_PROGRESS\<close>, any sequence of calls of
  \<^verbatim>\<open>complete()\<close> and \<^verbatim>\<open>abandon()\<close> on it leaves the whole state as it is: effort,
  errors, status and end of the task, and the calls made on the sinks. On a task in
  progress, a sequence of such calls does what its first call does, which is one terminal
  transition followed by one run of \<^verbatim>\<open>track()\<close>; the status is the one the first call
  asked for. And whatever operations follow on the registry and on the tasks, a task that
  is not in progress keeps its status and its end, so that \<^verbatim>\<open>complete()\<close> and
  \<^verbatim>\<open>abandon()\<close> never act on it again.
\<close>

theorem finish_once:
  "(status (heap w ! a) \<noteq> IN_PROGRESS \<longrightarrow> fold (\<lambda>c. end_call c a) cs w = w) \<and>
   (a < length (heap w) \<and> status (heap w ! a) = IN_PROGRESS \<longrightarrow>
      fold (\<lambda>c. end_call c a) (c # cs) w = track a (transition (ending_status c) a w) \<and>
      status (heap (fold (\<lambda>c. end_call c a) (c # cs) w) ! a) = ending_status c) \<and>
   (a < length (heap w) \<and> status (heap w ! a) \<noteq> IN_PROGRESS \<and>
    run ops (h, w) = Some (h', w') \<longrightarrow>
      status (heap w' ! a) = status (heap w ! a) \<and> end_ts (heap w' ! a) = end_ts (heap w ! a) \<and>
      fold (\<lambda>c. end_call c a) cs w' = w')"
proof (intro conjI impI)
  assume "status (heap w ! a) \<noteq> IN_PROGRESS"
  then show "fold (\<lambda>c. end_call c a) cs w = w" by (rule fold_end_call_terminal)
next
  assume h: "a < length (heap w) \<and> status (heap w ! a) = IN_PROGRESS"
  let ?w1 = "track a (transition (ending_status c) a w)"
  have first: "end_call c a w = ?w1"
    using h by (simp add: end_call_finish finish_in_progress)
  have st: "status (heap ?w1 ! a) = ending_status c"
    using h by (simp add: transition_def)
  then have "status (heap ?w1 ! a) \<noteq> IN_PROGRESS" by (cases c) simp_all
  then have "fold (\<lambda>c. end_call c a) cs ?w1 = ?w1" by (rule fold_end_call_terminal)
  then show all: "fold (\<lambda>c. end_call c a) (c # cs) w = ?w1" by (simp add: first)
  show "status (heap (fold (\<lambda>c. end_call c a) (c # cs) w) ! a) = ending_status c"
    using all st by simp
next
  assume h: "a < length (heap w) \<and> status (heap w ! a) \<noteq> IN_PROGRESS \<and>
    run ops (h, w) = Some (h', w')"
  then have k: "terminal_kept w w'" using run_terminal_kept by blast
  with h show s: "status (heap w' ! a) = status (heap w ! a)"
    and "end_ts (heap w' ! a) = end_ts (heap w ! a)"
    by (simp_all add: terminal_kept_def)
  with h have "status (heap w' ! a) \<noteq> IN_PROGRESS" by simp
  then show "fold (\<lambda>c. end_call c a) cs w' = w'" by (rule fold_end_call_terminal)
qed

theorem finish_once_witness:
  "(0 < length (heap world1) \<and> status (heap world1 ! 0) = IN_PROGRESS) \<and>
   fold (\<lambda>c. end_call c 0) [Complete, Abandon, Complete] world1
     = track 0 (transition COMPLETED 0 world1) \<and>
   status (heap (fold (\<lambda>c. end_call c 0) [Complete, Abandon, Complete] world1) ! 0) = COMPLETED \<and>
   status (heap (abandon 0 world1) ! 0) \<noteq> IN_PROGRESS \<and>
   fold (\<lambda>c. end_call c 0) [Complete, Abandon] (abandon 0 world1) = abandon 0 world1 \<and>
   (1 < length (heap world4) \<and> status (heap world4 ! 1) \<noteq> IN_PROGRESS) \<and>
   run [AbandonInProgressTasks, End Abandon 1] (registry3, world4)
     = Some (registry3, abandonInProgressTasks registry3 world4) \<and>
   status (heap (abandonInProgressTasks registry3 world4) ! 1) = COMPLETED \<and>
   end_ts (heap (abandonInProgressTasks registry3 world4) ! 1) = Some 2500"
proof -
  have a: "0 < length (heap world1) \<and> status (heap world1 ! 0) = IN_PROGRESS"
    by (simp add: eval_defs)
  have b: "status (heap (abandon 0 world1) ! 0) \<noteq> IN_PROGRESS"
    by (simp add: eval_defs)
  have c: "1 < length (heap world4) \<and> status (heap world4 ! 1) \<noteq> IN_PROGRESS"
    "status (heap world4 ! 1) = COMPLETED" "end_ts (heap world4 ! 1) = Some 2500"
    by (simp_all add: world4_eq)
  have "status (heap (abandonInProgressTasks registry3 world4) ! 1) \<noteq> IN_PROGRESS"
    by (simp add: world4_swept)
  then have r: "run [AbandonInProgressTasks, End Abandon 1] (registry3, world4)
     = Some (registry3, abandonInProgressTasks registry3 world4)"
    by (simp add: abandon_def finish_terminal) (simp add: world4_swept)
  note t1 = finish_once [where w = world1 and a = 0 and cs = "[Abandon, Complete]"
      and c = Complete, THEN conjunct2, THEN conjunct1, THEN mp, OF a]
  note t2 = finish_once [where w = "abandon 0 world1" and a = 0 and cs = "[Complete, Abandon]",
      THEN conjunct1, THEN mp, OF b]
  note t3 = finish_once [where w = world4 and a = 1 and ops = "[AbandonInProgressTasks, End Abandon 1]"
      and h = registry3 and h' = registry3 and w' = "abandonInProgressTasks registry3 world4",
      THEN conjunct2, THEN conjunct2, THEN mp, OF conjI [OF c(1) [THEN conjunct1] conjI [OF c(1) [THEN conjunct2] r]]]
  have p1: "fold (\<lambda>c. end_call c 0) [Complete, Abandon, Complete] world1
       = track 0 (transition COMPLETED 0 world1) \<and>
     status (heap (fold (\<lambda>c. end_call c 0) [Complete, Abandon, Complete] world1) ! 0) = COMPLETED"
    using t1 unfolding ending_status.simps .
  have p3: "status (heap (abandonInProgressTasks registry3 world4) ! 1) = COMPLETED \<and>
     end_ts (heap (abandonInProgressTasks registry3 world4) ! 1) = Some 2500"
    using t3 c(2,3) by simp
  show ?thesis
    using a b c(1) r p1 t2 p3 by blast
qed



subsection \<open>Parents come before their children\<close>

text \<open>
  The hypothesis of the propagation of the counters holds wherever the operations lead:
  it holds of the empty heap, and every operation keeps it.
\<close>

lemma settles_heap_ok:
  assumes "settles w w'" and "heap_ok (heap w)"
  shows "heap_ok (heap w')"
proof (rule heap_okI)
  fix a p assume "a < length (heap w')" "parentTask (heap w' ! a) = Some p"
  with assms(1) have "a < length (heap w)" "parentTask (heap w ! a) = Some p"
    by (simp_all add: settles_def)
  then show "p < a" by (rule heap_okD [OF assms(2)])
qed

lemma createTask_heap_ok:
  assumes "heap_ok (heap w)" and "\<forall>p. parent = Some p \<longrightarrow> p < length (heap w)"
  shows "heap_ok (heap (snd (snd (createTask nm parent h w))))"
proof (rule heap_okI)
  let ?w1 = "make_room nm h w"
  have ok1: "heap_ok (heap ?w1)"
    using make_room_settles assms(1) by (rule settles_heap_ok)
  have l: "length (heap ?w1) = length (heap w)"
    using make_room_settles [of w nm h] by (simp add: settles_def)
  fix a p
  assume a: "a < length (heap (snd (snd (createTask nm parent h w))))"
    and p: "parentTask (heap (snd (snd (createTask nm parent h w))) ! a) = Some p"
  show "p < a"
  proof (cases "a < length (heap w)")
    case True
    with p have "parentTask (heap ?w1 ! a) = Some p"
      by (simp add: createTask_unfold nth_append l)
    with True show ?thesis using heap_okD [OF ok1, of a p] by (simp add: l)
  next
    case False
    with a have "a = length (heap w)" by (simp add: createTask_unfold l)
    with p have "parent = Some p" by (simp add: createTask_unfold nth_append l)
    with assms(2) \<open>a = length (heap w)\<close> show ?thesis by simp
  qed
qed

lemma step_heap_ok:
  assumes "step x (h, w) = Some (h', w')" and "heap_ok (heap w)"
  shows "heap_ok (heap w')"
  using step_cases [OF assms(1)]
proof (elim disjE exE conjE)
  assume "heap w' = heap w"
  with assms(2) show ?thesis by simp
next
  fix nm parent
  assume "(h', w') = snd (createTask nm parent h w)"
    and p: "\<forall>p. parent = Some p \<longrightarrow> p < length (heap w)"
  then have "w' = snd (snd (createTask nm parent h w))" by (simp add: prod_eq_iff)
  with createTask_heap_ok [OF assms(2) p] show ?thesis by simp
next
  assume "settles w w'"
  then show ?thesis using assms(2) by (rule settles_heap_ok)
qed

lemma run_heap_ok:
  "run xs (h, w) = Some (h', w') \<Longrightarrow> heap_ok (heap w) \<Longrightarrow> heap_ok (heap w')"
proof (induction xs arbitrary: h w)
  case Nil
  then show ?case by simp
next
  case (Cons x xs)
  from Cons.prems(1) obtain h1 w1 where s: "step x (h, w) = Some (h1, w1)"
    and r: "run xs (h1, w1) = Some (h', w')"
    by (auto split: option.splits)
  from Cons.IH [OF r step_heap_ok [OF s Cons.prems(2)]] show ?case .
qed

lemma heap_ok_Nil: "heap_ok []"
  by (simp add: heap_ok_def)


end
